theory Spec2Isabelle
  imports Main "HOL-Library.AList"
begin

section \<open>Data model of dev/model/graph.go\<close>

text \<open>
  A Go map is an association list: \<open>map_of\<close> is the lookup, \<open>AList.update\<close> the
  assignment \<open>m[k] = v\<close>, \<open>AList.delete\<close> the builtin \<open>delete(m, k)\<close>, and a
  \<open>range\<close> loop visits the entries in list order. Go leaves the order of a \<open>range\<close>
  over a map open; every theorem below holds for every list, hence for every order in
  which the graph's maps are first met. A map has each key once: \<open>keys_distinct\<close>.

  A \<open>*Node\<close> or \<open>*Channel\<close> is identified with the registry key under which the
  object is stored (the JSON decoder allocates one object per key, and \<open>LoadJSON\<close>
  caches the key in the object's \<open>Name\<close>); writing through the pointer is an update
  of the registry entry.

  The records keep the fields that \<open>DeleteChannel\<close>, \<open>DeleteNode\<close>,
  \<open>RefreshChannelsPins\<close> and \<open>InferTypes\<close> read or write. The graph's
  \<open>FilePath\<close>, \<open>URLPath\<close>, \<open>Name\<close>, \<open>PackagePath\<close> and \<open>IsCommand\<close> are
  touched by none of them and are left out.
\<close>

datatype NodePin = NodePin (Node: string) (Pin: string)

datatype TypeParam = TypeParam (Scope: string) (Ident: string)

text \<open>
  \<open>Channel.Type\<close> is a \<open>*source.Type\<close>. The only assignment to it besides \<open>nil\<close> is
  \<open>c.Type = ptype\<close> in \<open>inferChannelType\<close>, where \<open>ptype\<close> is the object stored in
  \<open>n.pinTypes[np.Pin]\<close>: the channel and that pin then share one object. The model
  keeps the sharing: the field holds the \<open>NodePin\<close> whose type object the channel
  points to, and the object itself lives in the node's \<open>pinTypes\<close>.
\<close>

record Channel =
  Name :: string
  Pins :: "NodePin list"
  Type :: "NodePin option"

text \<open>
  \<open>PartPins\<close> is what \<open>n.Pins()\<close> returns: pin name to the declared type text
  (\<open>p.Type\<close>), the only field of a pin definition the graph code reads.
\<close>

record 'ty Node =
  Name :: string
  PartPins :: "(string \<times> string) list"
  Connections :: "(string \<times> string) list"
  pinTypes :: "(string \<times> 'ty) list"
  typeParams :: "(string \<times> string) list"

record 'ty Graph =
  Nodes :: "(string \<times> 'ty Node) list"
  Channels :: "(string \<times> Channel) list"
  types :: "(TypeParam \<times> 'ty) list"

datatype error =
    Panic string
  | SourceError string
  | TypeIncompatibilityError (Summary: string) (Source: string)

subsection \<open>Well-formed graphs\<close>

definition names_cached :: "'ty Graph \<Rightarrow> bool" where
  "names_cached g \<longleftrightarrow>
     list_all (\<lambda>(k, n). Node.Name n = k) (Nodes g) \<and>
     list_all (\<lambda>(k, c). Channel.Name c = k) (Channels g)"

definition keys_distinct :: "'ty Graph \<Rightarrow> bool" where
  "keys_distinct g \<longleftrightarrow>
     distinct (map fst (Nodes g)) \<and> distinct (map fst (Channels g)) \<and>
     list_all (\<lambda>(k, n). distinct (map fst (Connections n))) (Nodes g) \<and>
     list_all (\<lambda>(k, c). distinct (Channel.Pins c)) (Channels g)"

text \<open>
  The literal \<open>"nil"\<close> in a connection entry marks an unconnected pin. Nothing in the
  code keeps a channel from being registered under that name; \<open>sentinel_free\<close> says
  that none is.
\<close>

definition sentinel_free :: "'ty Graph \<Rightarrow> bool" where
  "sentinel_free g \<longleftrightarrow> map_of (Channels g) ''nil'' = None"

text \<open>
  Every pin in a channel's cache is the connection entry of a node of the registry and
  that entry names the channel: what a cache rebuilt by \<open>RefreshChannelsPins\<close> holds.
\<close>

definition pins_backed :: "'ty Graph \<Rightarrow> bool" where
  "pins_backed g \<longleftrightarrow>
     list_all (\<lambda>(k, ch).
        list_all (\<lambda>np. case map_of (Nodes g) (Node np) of
                          None \<Rightarrow> False
                        | Some n \<Rightarrow> map_of (Connections n) (Pin np) = Some k)
          (Channel.Pins ch))
       (Channels g)"

definition wf_graph :: "'ty Graph \<Rightarrow> bool" where
  "wf_graph g \<longleftrightarrow> names_cached g \<and> keys_distinct g \<and> sentinel_free g"

section \<open>Channel pin sets\<close>

text \<open>
  Modelled from the spec: \<open>Channel.AddPin\<close> and \<open>Channel.RemovePin\<close> (channel.go is not
  among the sources). A channel "caches the set of pins currently wired to it"; adding
  puts the (node, pin) pair into the set, removing takes it out.
\<close>

definition AddPin :: "Channel \<Rightarrow> string \<Rightarrow> string \<Rightarrow> Channel" where
  "AddPin ch node pin = ch\<lparr>Channel.Pins := List.insert (NodePin node pin) (Channel.Pins ch)\<rparr>"

definition RemovePin :: "Channel \<Rightarrow> string \<Rightarrow> string \<Rightarrow> Channel" where
  "RemovePin ch node pin = ch\<lparr>Channel.Pins := removeAll (NodePin node pin) (Channel.Pins ch)\<rparr>"

section \<open>DeleteChannel\<close>

fun disconnect_pins ::
  "NodePin list \<Rightarrow> (string \<times> 'ty Node) list \<Rightarrow> error + (string \<times> 'ty Node) list" where
  "disconnect_pins [] ns = Inr ns"
| "disconnect_pins (np # nps) ns =
     (case map_of ns (Node np) of
        None \<Rightarrow> Inl (Panic (''node '' @ Node np @ '' should exist''))
      | Some n \<Rightarrow>
          disconnect_pins nps
            (AList.update (Node np)
               (n\<lparr>Connections := AList.update (Pin np) ''nil'' (Connections n)\<rparr>) ns))"

definition DeleteChannel :: "'ty Graph \<Rightarrow> Channel \<Rightarrow> error + 'ty Graph" where
  "DeleteChannel g ch =
     (case disconnect_pins (Channel.Pins ch) (Nodes g) of
        Inl e \<Rightarrow> Inl e
      | Inr ns \<Rightarrow> Inr (g\<lparr>Nodes := ns, Channels := AList.delete (Channel.Name ch) (Channels g)\<rparr>))"

section \<open>DeleteNode\<close>

text \<open>
  The first loop of \<open>DeleteNode\<close>. \<open>rem\<close> holds channel pointers, here the registry
  keys they were read from.
\<close>

fun remove_node_pins ::
  "string \<Rightarrow> bool \<Rightarrow> (string \<times> string) list \<Rightarrow> (string \<times> Channel) list \<Rightarrow> string list
   \<Rightarrow> (string \<times> Channel) list \<times> string list" where
  "remove_node_pins nm cleanupChans [] cs rem = (cs, rem)"
| "remove_node_pins nm cleanupChans ((p, cn) # conns) cs rem =
     (if cn = ''nil'' then remove_node_pins nm cleanupChans conns cs rem
      else case map_of cs cn of
        None \<Rightarrow> remove_node_pins nm cleanupChans conns cs rem
      | Some ch \<Rightarrow>
          (let ch' = RemovePin ch nm p
           in remove_node_pins nm cleanupChans conns (AList.update cn ch' cs)
                (if cleanupChans \<and> length (Channel.Pins ch') < 2 then rem @ [cn] else rem)))"

fun DeleteChannels :: "Channel list \<Rightarrow> 'ty Graph \<Rightarrow> error + 'ty Graph" where
  "DeleteChannels [] g = Inr g"
| "DeleteChannels (ch # chs) g =
     (case DeleteChannel g ch of Inl e \<Rightarrow> Inl e | Inr g' \<Rightarrow> DeleteChannels chs g')"

text \<open>
  No channel object is written after the first loop (\<open>DeleteChannel\<close> writes node
  connections and the registry only), so what the pointers in \<open>rem\<close> point to in the
  second loop is what the registry held when the first loop ended.
\<close>

definition DeleteNode :: "'ty Graph \<Rightarrow> 'ty Node \<Rightarrow> bool \<Rightarrow> error + 'ty Graph" where
  "DeleteNode g n cleanupChans =
     (case remove_node_pins (Node.Name n) cleanupChans (Connections n) (Channels g) [] of
        (cs, rem) \<Rightarrow>
          DeleteChannels (List.map_filter (map_of cs) rem)
            (g\<lparr>Channels := cs, Nodes := AList.delete (Node.Name n) (Nodes g)\<rparr>))"

section \<open>RefreshChannelsPins\<close>

fun add_connections ::
  "string \<Rightarrow> (string \<times> string) list \<Rightarrow> (string \<times> Channel) list \<Rightarrow> (string \<times> Channel) list" where
  "add_connections nm [] cs = cs"
| "add_connections nm ((p, co) # conns) cs =
     (case map_of cs co of
        None \<Rightarrow> add_connections nm conns cs
      | Some ch \<Rightarrow> add_connections nm conns (AList.update co (AddPin ch nm p) cs))"

fun add_nodes ::
  "(string \<times> 'ty Node) list \<Rightarrow> (string \<times> Channel) list \<Rightarrow> (string \<times> Channel) list" where
  "add_nodes [] cs = cs"
| "add_nodes ((k, n) # ns) cs = add_nodes ns (add_connections (Node.Name n) (Connections n) cs)"

text \<open>
  The third loop ranges over the registry while \<open>DeleteChannel\<close> deletes from it: an
  entry removed before the loop reaches it is not produced.
\<close>

fun prune_channels :: "(string \<times> Channel) list \<Rightarrow> 'ty Graph \<Rightarrow> error + 'ty Graph" where
  "prune_channels [] g = Inr g"
| "prune_channels ((k, ch) # rest) g =
     (if map_of (Channels g) k = None then prune_channels rest g
      else if length (Channel.Pins ch) < 2 then
        (case DeleteChannel g ch of Inl e \<Rightarrow> Inl e | Inr g' \<Rightarrow> prune_channels rest g')
      else prune_channels rest g)"

definition reset_caches :: "(string \<times> Channel) list \<Rightarrow> (string \<times> Channel) list" where
  "reset_caches cs = map (\<lambda>(k, ch). (k, ch\<lparr>Channel.Pins := []\<rparr>)) cs"

definition rebuilt_caches :: "'ty Graph \<Rightarrow> (string \<times> Channel) list" where
  "rebuilt_caches g = add_nodes (Nodes g) (reset_caches (Channels g))"

definition RefreshChannelsPins :: "'ty Graph \<Rightarrow> error + 'ty Graph" where
  "RefreshChannelsPins g = prune_channels (rebuilt_caches g) (g\<lparr>Channels := rebuilt_caches g\<rparr>)"

section \<open>The source package, as far as the graph uses it\<close>

text \<open>
  The package \<open>dev/source\<close> (\<open>Type\<close>, \<open>TypeInferenceMap\<close>) is not among the sources.
  \<open>InferTypes\<close> is modelled over any implementation of the operations it calls, given
  as a record; \<open>'ty\<close> is the value of a \<open>source.Type\<close> object. What a theorem needs of
  these operations is a hypothesis of that theorem.

  \<^item> \<open>NewType scope text\<close>: the parsed type, its parameters scoped, or an error;
  \<^item> \<open>MustNewType\<close>: the same for a text known to parse;
  \<^item> \<open>Infer m p q\<close> is \<open>m.Infer(p, q)\<close>: the map as the call leaves it and the error
    it returns;
  \<^item> \<open>Refine t m\<close> is \<open>t.Refine(m)\<close>: an error, or the object's new value and the
    "changed" flag;
  \<^item> \<open>Lithify t def\<close> is \<open>t.Lithify(def)\<close>: the object's new value;
  \<^item> \<open>String t\<close> is \<open>t.String()\<close>.
\<close>

record 'ty source_ops =
  NewType :: "string \<Rightarrow> string \<Rightarrow> string + 'ty"
  MustNewType :: "string \<Rightarrow> string \<Rightarrow> 'ty"
  Infer :: "(TypeParam \<times> 'ty) list \<Rightarrow> 'ty \<Rightarrow> 'ty \<Rightarrow> (TypeParam \<times> 'ty) list \<times> string option"
  Refine :: "'ty \<Rightarrow> (TypeParam \<times> 'ty) list \<Rightarrow> string + ('ty \<times> bool)"
  Lithify :: "'ty \<Rightarrow> 'ty \<Rightarrow> 'ty"
  String :: "'ty \<Rightarrow> string"

definition typeEmptyInterface :: "'ty source_ops \<Rightarrow> 'ty" where
  "typeEmptyInterface ops = MustNewType ops '''' ''interface{}''"

subsection \<open>Type objects\<close>

text \<open>
  Every \<open>source.Type\<close> object a pass works on is created by \<open>NewType\<close> for one pin
  of one node and stored in that node's \<open>pinTypes\<close>; a \<open>NodePin\<close> is its address.
\<close>

definition type_at :: "(string \<times> 'ty Node) list \<Rightarrow> NodePin \<Rightarrow> 'ty option" where
  "type_at ns r = (case map_of ns (Node r) of None \<Rightarrow> None | Some n \<Rightarrow> map_of (pinTypes n) (Pin r))"

definition set_type_at :: "NodePin \<Rightarrow> 'ty \<Rightarrow> (string \<times> 'ty Node) list \<Rightarrow> (string \<times> 'ty Node) list" where
  "set_type_at r t ns =
     (case map_of ns (Node r) of
        None \<Rightarrow> ns
      | Some n \<Rightarrow> AList.update (Node r) (n\<lparr>pinTypes := AList.update (Pin r) t (pinTypes n)\<rparr>) ns)"

section \<open>applyTypeParams\<close>

fun refine_pins ::
  "'ty source_ops \<Rightarrow> (TypeParam \<times> 'ty) list \<Rightarrow> (string \<times> string) list \<Rightarrow> (string \<times> 'ty) list
   \<Rightarrow> string list \<Rightarrow> string + ((string \<times> 'ty) list \<times> string list)" where
  "refine_pins ops m conns [] next = Inr ([], next)"
| "refine_pins ops m conns ((pn, pt) # pts) next =
     (case Refine ops pt m of
        Inl err \<Rightarrow> Inl err
      | Inr (pt', changed) \<Rightarrow>
          (let ch = (case map_of conns pn of None \<Rightarrow> '''' | Some ch \<Rightarrow> ch);
               next' = (if \<not> changed then next
                        else if ch = '''' \<or> ch = ''nil'' then next
                        else List.insert ch next)
           in case refine_pins ops m conns pts next' of
                Inl err \<Rightarrow> Inl err
              | Inr (pts', nx) \<Rightarrow> Inr ((pn, pt') # pts', nx)))"

definition applyTypeParams ::
  "'ty source_ops \<Rightarrow> 'ty Node \<Rightarrow> (TypeParam \<times> 'ty) list \<Rightarrow> string + ('ty Node \<times> string list)" where
  "applyTypeParams ops n m =
     (case refine_pins ops m (Connections n) (pinTypes n) [] of
        Inl err \<Rightarrow> Inl err
      | Inr (pts, next) \<Rightarrow> Inr (n\<lparr>pinTypes := pts\<rparr>, next))"

section \<open>inferChannelType\<close>

text \<open>
  One turn of the loop over \<open>c.Pins\<close>, then the loop; \<open>ck\<close> is the channel
  \<open>c\<close>. In the source the value
  \<open>Infer\<close> returns is dropped, and the test after the call reads the function's own
  result variable \<open>err\<close>, which nothing has assigned: every later \<open>err\<close> is declared
  in an inner scope. A \<open>nil\<close> node or a \<open>nil\<close> type handed on is a panic.
\<close>

definition infer_pin ::
  "'ty source_ops \<Rightarrow> string \<Rightarrow> NodePin \<Rightarrow> 'ty Graph \<Rightarrow> string list
   \<Rightarrow> error + ('ty Graph \<times> string list)" where
  "infer_pin ops ck np g next =
     (case map_of (Nodes g) (Node np) of
        None \<Rightarrow> Inl (Panic ''nil pointer dereference: node'')
      | Some n \<Rightarrow>
     (case map_of (Channels g) ck of
        None \<Rightarrow> Inl (Panic ''nil pointer dereference: channel'')
      | Some c \<Rightarrow>
     (case Channel.Type c of
        None \<Rightarrow>
          Inr (g\<lparr>Channels :=
                   AList.update ck
                     (c\<lparr>Channel.Type := (case map_of (pinTypes n) (Pin np) of
                                            None \<Rightarrow> None | Some pt \<Rightarrow> Some np)\<rparr>)
                     (Channels g)\<rparr>,
               List.insert ck next)
      | Some r \<Rightarrow>
     (case (type_at (Nodes g) r, map_of (pinTypes n) (Pin np)) of
        (Some ct, Some ptype) \<Rightarrow>
          (let err = (None :: string option);
               types' = fst (Infer ops (types g) ct ptype)
           in if err \<noteq> None then
                Inl (TypeIncompatibilityError ''channel connected to incompatible types''
                       (case err of None \<Rightarrow> [] | Some e \<Rightarrow> e))
              else
                (case Refine ops ct types' of
                   Inl e \<Rightarrow> Inl (TypeIncompatibilityError ''channel type refinement failed'' e)
                 | Inr (ct', changed) \<Rightarrow>
                     (let ns1 = set_type_at r ct' (Nodes g)
                      in case map_of ns1 (Node np) of
                           None \<Rightarrow> Inl (Panic ''nil pointer dereference: node'')
                         | Some n1 \<Rightarrow>
                             (case applyTypeParams ops n1 types' of
                                Inl e \<Rightarrow> Inl (SourceError e)
                              | Inr (n2, nxcn) \<Rightarrow>
                                  Inr (g\<lparr>Nodes := AList.update (Node np) n2 ns1, types := types'\<rparr>,
                                       fold List.insert nxcn next)))))
      | _ \<Rightarrow> Inl (Panic ''nil pointer dereference: type'')))))"

fun infer_pins ::
  "'ty source_ops \<Rightarrow> string \<Rightarrow> NodePin list \<Rightarrow> 'ty Graph \<Rightarrow> string list
   \<Rightarrow> error + ('ty Graph \<times> string list)" where
  "infer_pins ops ck [] g next = Inr (g, next)"
| "infer_pins ops ck (np # nps) g next =
     (case infer_pin ops ck np g next of
        Inl e \<Rightarrow> Inl e
      | Inr (g', next') \<Rightarrow> infer_pins ops ck nps g' next')"

definition inferChannelType ::
  "'ty source_ops \<Rightarrow> 'ty Graph \<Rightarrow> string \<Rightarrow> error + ('ty Graph \<times> string list)" where
  "inferChannelType ops g ck =
     (case map_of (Channels g) ck of
        None \<Rightarrow> Inl (Panic ''nil pointer dereference: channel'')
      | Some c \<Rightarrow> infer_pins ops ck (Channel.Pins c) g [])"

section \<open>InferTypes\<close>

fun instantiate_pins ::
  "'ty source_ops \<Rightarrow> string \<Rightarrow> (string \<times> string) list \<Rightarrow> string + (string \<times> 'ty) list" where
  "instantiate_pins ops nm [] = Inr []"
| "instantiate_pins ops nm ((pn, ptext) # pins) =
     (case NewType ops nm ptext of
        Inl err \<Rightarrow> Inl err
      | Inr pt \<Rightarrow>
          (case instantiate_pins ops nm pins of
             Inl err \<Rightarrow> Inl err
           | Inr pts \<Rightarrow> Inr ((pn, pt) # pts)))"

fun instantiate_nodes ::
  "'ty source_ops \<Rightarrow> (string \<times> 'ty Node) list \<Rightarrow> string + (string \<times> 'ty Node) list" where
  "instantiate_nodes ops [] = Inr []"
| "instantiate_nodes ops ((k, n) # ns) =
     (case instantiate_pins ops (Node.Name n) (PartPins n) of
        Inl err \<Rightarrow> Inl err
      | Inr pts \<Rightarrow>
          (case instantiate_nodes ops ns of
             Inl err \<Rightarrow> Inl err
           | Inr ns' \<Rightarrow> Inr ((k, n\<lparr>pinTypes := pts\<rparr>) # ns')))"

text \<open>
  The flood fill. The queue holds channel pointers, here registry keys; the key of a
  name that is in no registry entry stands for the \<open>nil\<close> pointer that
  \<open>g.Channels[cn]\<close> gives. The loop has no bound in the source: the model counts steps,
  and \<open>None\<close> says that the fuel ran out before the queue was empty.
\<close>

fun flood ::
  "'ty source_ops \<Rightarrow> nat \<Rightarrow> string list \<Rightarrow> 'ty Graph \<Rightarrow> (error + 'ty Graph) option" where
  "flood ops fuel [] g = Some (Inr g)"
| "flood ops 0 (c # q) g = None"
| "flood ops (Suc fuel) (c # q) g =
     (case inferChannelType ops g c of
        Inl err \<Rightarrow> Some (Inl err)
      | Inr (g', next) \<Rightarrow> flood ops fuel (q @ next) g')"

text \<open>
  \<open>c.Type.Lithify(typeEmptyInterface)\<close> for every channel. A channel whose type is
  still \<open>nil\<close> hands the absent method a \<open>nil\<close> receiver: a panic here.
\<close>

fun lithify_channels ::
  "'ty source_ops \<Rightarrow> (string \<times> Channel) list \<Rightarrow> (string \<times> 'ty Node) list
   \<Rightarrow> error + (string \<times> 'ty Node) list" where
  "lithify_channels ops [] ns = Inr ns"
| "lithify_channels ops ((k, c) # cs) ns =
     (case Channel.Type c of
        None \<Rightarrow> Inl (Panic ''nil pointer dereference: type'')
      | Some r \<Rightarrow>
          (case type_at ns r of
             None \<Rightarrow> Inl (Panic ''nil pointer dereference: type'')
           | Some t \<Rightarrow>
               lithify_channels ops cs (set_type_at r (Lithify ops t (typeEmptyInterface ops)) ns)))"

definition lithify_nodes ::
  "'ty source_ops \<Rightarrow> (string \<times> 'ty Node) list \<Rightarrow> (string \<times> 'ty Node) list" where
  "lithify_nodes ops ns =
     map (\<lambda>(k, n). (k, n\<lparr>pinTypes := map (\<lambda>(pn, pt). (pn, Lithify ops pt (typeEmptyInterface ops)))
                                    (pinTypes n),
                        typeParams := []\<rparr>)) ns"

fun publish_types ::
  "'ty source_ops \<Rightarrow> (TypeParam \<times> 'ty) list \<Rightarrow> (string \<times> 'ty Node) list
   \<Rightarrow> error + (string \<times> 'ty Node) list" where
  "publish_types ops [] ns = Inr ns"
| "publish_types ops ((tp, typ) # rest) ns =
     (case map_of ns (Scope tp) of
        None \<Rightarrow> Inl (Panic ''nil pointer dereference: node'')
      | Some n \<Rightarrow>
          publish_types ops rest
            (AList.update (Scope tp)
               (n\<lparr>typeParams := AList.update (Ident tp) (String ops typ) (typeParams n)\<rparr>) ns))"

definition InferTypes :: "'ty source_ops \<Rightarrow> nat \<Rightarrow> 'ty Graph \<Rightarrow> (error + 'ty Graph) option" where
  "InferTypes ops fuel g =
     (case instantiate_nodes ops (Nodes g) of
        Inl err \<Rightarrow> Some (Inl (SourceError err))
      | Inr ns \<Rightarrow>
          (case flood ops fuel (map fst (Channels g))
                  (g\<lparr>Nodes := ns,
                     Channels := map (\<lambda>(k, c). (k, c\<lparr>Channel.Type := None\<rparr>)) (Channels g),
                     types := []\<rparr>) of
             None \<Rightarrow> None
           | Some (Inl err) \<Rightarrow> Some (Inl err)
           | Some (Inr g1) \<Rightarrow>
               (case lithify_channels ops (Channels g1) (Nodes g1) of
                  Inl err \<Rightarrow> Some (Inl err)
                | Inr ns1 \<Rightarrow>
                    (case publish_types ops (types g1) (lithify_nodes ops ns1) of
                       Inl err \<Rightarrow> Some (Inl err)
                     | Inr ns2 \<Rightarrow> Some (Inr (g1\<lparr>Nodes := ns2\<rparr>))))))"

section \<open>An implementation of the source package\<close>

text \<open>
  Modelled from the spec: the type expressions and the inference map of \<open>dev/source\<close>,
  which is not among the sources. A type is "an expression tree that may contain free,
  per-node-scoped type-parameter identifiers"; the package "supports unifying two
  expressions and substituting known bindings into an expression". In the graph
  documents a parameter is written with a leading dollar sign. The instance reads a
  declared type as a name or a parameter under any number of the prefixes \<open>[]\<close>
  and \<open>*\<close>, which is all the scenarios of the spec use.

  Unification binds a free identifier on either side to what stands on the other side,
  a concrete sub-expression or the other side's identifier (spec section 4.3, step 2);
  an identifier facing itself records nothing. It reports a conflict between two
  different concrete names, and between a binding and a different one recorded before.
  Substitution replaces each bound identifier by its binding, once, and reports whether
  the expression changed; it never fails.
\<close>

datatype SourceType = Named string | Param TypeParam | Apply string SourceType

function parse_type :: "string \<Rightarrow> string \<Rightarrow> SourceType option" where
  "parse_type scope text =
     (if text = [] then None
      else if hd text = CHR ''$'' then
        (if tl text = [] then None else Some (Param (TypeParam scope (tl text))))
      else if take 2 text = ''[]'' then map_option (Apply ''[]'') (parse_type scope (drop 2 text))
      else if hd text = CHR ''*'' then map_option (Apply ''*'') (parse_type scope (tl text))
      else Some (Named text))"
  by pat_completeness auto
termination
  by (relation "measure (\<lambda>(scope, text). length text)") auto

declare parse_type.simps [simp del]



definition bind ::
  "TypeParam \<Rightarrow> SourceType \<Rightarrow> (TypeParam \<times> SourceType) list
   \<Rightarrow> (TypeParam \<times> SourceType) list \<times> string option" where
  "bind a t m =
     (if t = Param a then (m, None)
      else case map_of m a of
        None \<Rightarrow> (AList.update a t m, None)
      | Some t' \<Rightarrow> if t' = t then (m, None) else (m, Some ''conflicting inferences''))"

fun unify ::
  "(TypeParam \<times> SourceType) list \<Rightarrow> SourceType \<Rightarrow> SourceType
   \<Rightarrow> (TypeParam \<times> SourceType) list \<times> string option" where
  "unify m (Param a) q = bind a q m"
| "unify m p (Param b) = bind b p m"
| "unify m (Named x) (Named y) =
     (if x = y then (m, None) else (m, Some (''cannot unify '' @ x @ '' with '' @ y)))"
| "unify m (Apply f p) (Apply h q) =
     (if f = h then unify m p q else (m, Some (''cannot unify '' @ f @ '' with '' @ h)))"
| "unify m p q = (m, Some ''cannot unify'')"

fun substitute :: "(TypeParam \<times> SourceType) list \<Rightarrow> SourceType \<Rightarrow> SourceType" where
  "substitute m (Named x) = Named x"
| "substitute m (Param a) = (case map_of m a of None \<Rightarrow> Param a | Some t \<Rightarrow> t)"
| "substitute m (Apply f t) = Apply f (substitute m t)"

fun lithify :: "SourceType \<Rightarrow> SourceType \<Rightarrow> SourceType" where
  "lithify def (Named x) = Named x"
| "lithify def (Param a) = def"
| "lithify def (Apply f t) = Apply f (lithify def t)"

fun type_string :: "SourceType \<Rightarrow> string" where
  "type_string (Named x) = x"
| "type_string (Param a) = CHR ''$'' # Ident a"
| "type_string (Apply f t) = f @ type_string t"

definition spec_ops :: "SourceType source_ops" where
  "spec_ops =
     \<lparr>NewType = (\<lambda>scope text. case parse_type scope text of
                    None \<Rightarrow> Inl (''cannot parse type '' @ text) | Some t \<Rightarrow> Inr t),
      MustNewType = (\<lambda>scope text. case parse_type scope text of
                    None \<Rightarrow> Named text | Some t \<Rightarrow> t),
      Infer = unify,
      Refine = (\<lambda>t m. Inr (substitute m t, substitute m t \<noteq> t)),
      Lithify = (\<lambda>t def. lithify def t),
      String = type_string\<rparr>"


section \<open>Notions used in the statements\<close>

text \<open>
  The graph with all type state removed: no pin types, no published bindings, no
  channel types, an empty inference map. Two graphs with the same image have the same
  nodes, parts, connections, channels and pin caches.
\<close>

definition clear_types :: "'ty Graph \<Rightarrow> 'ty Graph" where
  "clear_types g =
     \<lparr>Nodes = map (\<lambda>(k, n). (k, n\<lparr>pinTypes := [], typeParams := []\<rparr>)) (Nodes g),
      Channels = map (\<lambda>(k, c). (k, c\<lparr>Channel.Type := None\<rparr>)) (Channels g),
      types = []\<rparr>"

text \<open>
  A pin \<open>x\<close> is unconnected when its connection entry reads \<open>"nil"\<close>, and uncached
  when no channel has it in its pin cache. \<open>without_pin x g\<close> is the graph in which the
  part of the node does not declare \<open>x\<close> and \<open>x\<close> has no type object; everything
  else is as in \<open>g\<close>.
\<close>

definition unconnected :: "NodePin \<Rightarrow> 'ty Graph \<Rightarrow> bool" where
  "unconnected x g \<longleftrightarrow>
     (case map_of (Nodes g) (Node x) of
        None \<Rightarrow> False
      | Some n \<Rightarrow> map_of (Connections n) (Pin x) = Some ''nil'')"

definition uncached :: "NodePin \<Rightarrow> 'ty Graph \<Rightarrow> bool" where
  "uncached x g \<longleftrightarrow> list_all (\<lambda>(k, c). x \<notin> set (Channel.Pins c)) (Channels g)"

definition drop_pin :: "string \<Rightarrow> 'ty Node \<Rightarrow> 'ty Node" where
  "drop_pin pn n =
     n\<lparr>PartPins := filter (\<lambda>(p, d). p \<noteq> pn) (PartPins n),
       pinTypes := filter (\<lambda>(p, t). p \<noteq> pn) (pinTypes n)\<rparr>"

definition hide :: "NodePin \<Rightarrow> (string \<times> 'ty Node) list \<Rightarrow> (string \<times> 'ty Node) list" where
  "hide x ns = map (\<lambda>(k, n). (k, if k = Node x then drop_pin (Pin x) n else n)) ns"

definition without_pin :: "NodePin \<Rightarrow> 'ty Graph \<Rightarrow> 'ty Graph" where
  "without_pin x g = g\<lparr>Nodes := hide x (Nodes g)\<rparr>"













section \<open>Closed forms used in the proofs\<close>

text \<open>
  A node after \<open>DeleteChannel\<close> has gone through the pins \<open>nps\<close>: its entries for
  the pins that name the node \<open>k\<close> read \<open>"nil"\<close>.
\<close>

definition disconnected :: "string \<Rightarrow> NodePin list \<Rightarrow> 'ty Node \<Rightarrow> 'ty Node" where
  "disconnected k nps n =
     n\<lparr>Connections :=
         fold (\<lambda>np c. if Node np = k then AList.update (Pin np) ''nil'' c else c) nps (Connections n)\<rparr>"

text \<open>
  A channel after the second loop of \<open>RefreshChannelsPins\<close>: \<open>added\<close> is the effect
  of one node's connections on the channel registered as \<open>k\<close>, \<open>wired\<close> that of all
  nodes.
\<close>

definition added :: "string \<Rightarrow> string \<Rightarrow> (string \<times> string) list \<Rightarrow> Channel \<Rightarrow> Channel" where
  "added k nm conns ch =
     ch\<lparr>Channel.Pins :=
          fold (\<lambda>(p, co) ps. if co = k then List.insert (NodePin nm p) ps else ps) conns
            (Channel.Pins ch)\<rparr>"

definition wired :: "string \<Rightarrow> (string \<times> 'ty Node) list \<Rightarrow> Channel \<Rightarrow> Channel" where
  "wired k ns ch = fold (\<lambda>(kn, n). added k (Node.Name n) (Connections n)) ns ch"

text \<open>
  The channels the third loop deletes, and their pins.
\<close>

definition doomed :: "(string \<times> Channel) list \<Rightarrow> (string \<times> Channel) list" where
  "doomed cs = filter (\<lambda>(k, ch). length (Channel.Pins ch) < 2) cs"

definition doomed_pins :: "(string \<times> Channel) list \<Rightarrow> NodePin list" where
  "doomed_pins cs = concat (map (\<lambda>(k, ch). Channel.Pins ch) (doomed cs))"

text \<open>
  A channel after the first loop of \<open>DeleteNode\<close>, and the channels that loop
  writes to.
\<close>

definition without_pins :: "string \<Rightarrow> string \<Rightarrow> (string \<times> string) list \<Rightarrow> Channel \<Rightarrow> Channel" where
  "without_pins k nm conns ch =
     ch\<lparr>Channel.Pins :=
          filter (\<lambda>np. \<not> (Node np = nm \<and> (Pin np, k) \<in> set conns \<and> k \<noteq> ''nil''))
            (Channel.Pins ch)\<rparr>"

definition touched :: "(string \<times> string) list \<Rightarrow> (string \<times> Channel) list \<Rightarrow> string set" where
  "touched conns cs = {cn \<in> snd ` set conns. cn \<noteq> ''nil'' \<and> map_of cs cn \<noteq> None}"

text \<open>
  The graph without its published bindings, which a pass does not read.
\<close>

definition forget_params :: "'ty Node \<Rightarrow> 'ty Node" where
  "forget_params n = n\<lparr>typeParams := []\<rparr>"

definition forget_nodes :: "(string \<times> 'ty Node) list \<Rightarrow> (string \<times> 'ty Node) list" where
  "forget_nodes ns = map (\<lambda>(k, n). (k, forget_params n)) ns"

definition forget :: "'ty Graph \<Rightarrow> 'ty Graph" where
  "forget g = g\<lparr>Nodes := forget_nodes (Nodes g)\<rparr>"

text \<open>
  The binding map of the node registered as \<open>k\<close> after the last loop of
  \<open>InferTypes\<close>.
\<close>

definition published ::
  "'ty source_ops \<Rightarrow> string \<Rightarrow> (TypeParam \<times> 'ty) list \<Rightarrow> (string \<times> string) list
   \<Rightarrow> (string \<times> string) list" where
  "published ops k m acc =
     fold (\<lambda>(tp, typ) acc. if Scope tp = k then AList.update (Ident tp) (String ops typ) acc else acc)
       m acc"


text \<open>
  Every type object of the second node registry comes from one of the first, and is
  concrete if that one was.
\<close>

definition refined :: "('ty \<Rightarrow> bool) \<Rightarrow> (string \<times> 'ty Node) list \<Rightarrow> (string \<times> 'ty Node) list \<Rightarrow> bool" where
  "refined G ns ns' \<longleftrightarrow>
     (\<forall>x t'. type_at ns' x = Some t' \<longrightarrow> (\<exists>t. type_at ns x = Some t \<and> (G t \<longrightarrow> G t')))"

text \<open>
  What the flood fill keeps of an unconnected, uncached pin \<open>x\<close>: it stays so, and no
  channel's type is the type object of \<open>x\<close>.
\<close>

definition hidden_ok :: "NodePin \<Rightarrow> 'ty Graph \<Rightarrow> bool" where
  "hidden_ok x g \<longleftrightarrow>
     unconnected x g \<and>
     (\<forall>(k, c) \<in> set (Channels g). x \<notin> set (Channel.Pins c) \<and> Channel.Type c \<noteq> Some x)"

section \<open>Example graphs\<close>

text \<open>
  Graphs without type state, over the one-element type and over \<open>SourceType\<close>.
\<close>

definition ex_node :: "string \<Rightarrow> (string \<times> string) list \<Rightarrow> (string \<times> string) list \<Rightarrow> unit Node" where
  "ex_node nm pins conns =
     \<lparr>Node.Name = nm, PartPins = pins, Connections = conns, pinTypes = [], typeParams = []\<rparr>"

definition ex_chan :: "string \<Rightarrow> NodePin list \<Rightarrow> Channel" where
  "ex_chan nm pins = \<lparr>Channel.Name = nm, Channel.Pins = pins, Channel.Type = None\<rparr>"

definition ex_graph :: "(string \<times> unit Node) list \<Rightarrow> (string \<times> Channel) list \<Rightarrow> unit Graph" where
  "ex_graph ns cs = \<lparr>Nodes = ns, Channels = cs, types = []\<rparr>"

definition tnode :: "string \<Rightarrow> (string \<times> string) list \<Rightarrow> (string \<times> string) list \<Rightarrow> SourceType Node" where
  "tnode nm pins conns =
     \<lparr>Node.Name = nm, PartPins = pins, Connections = conns, pinTypes = [], typeParams = []\<rparr>"

definition tgraph :: "(string \<times> SourceType Node) list \<Rightarrow> (string \<times> Channel) list \<Rightarrow> SourceType Graph" where
  "tgraph ns cs = \<lparr>Nodes = ns, Channels = cs, types = []\<rparr>"

text \<open>
  Scenario D of the spec: \<open>c2\<close> is wired to one pin only and is pruned.
\<close>

definition refresh_example :: "unit Graph" where
  "refresh_example = ex_graph
      [(''X'', ex_node ''X'' [] [(''out'', ''c1''), (''aux'', ''c2'')]),
       (''Y'', ex_node ''Y'' [] [(''in'', ''c1'')])]
      [(''c1'', ex_chan ''c1'' []), (''c2'', ex_chan ''c2'' [])]"

definition refreshed_example :: "unit Graph" where
  "refreshed_example = ex_graph
      [(''X'', ex_node ''X'' [] [(''out'', ''c1''), (''aux'', ''nil'')]),
       (''Y'', ex_node ''Y'' [] [(''in'', ''c1'')])]
      [(''c1'', ex_chan ''c1'' [NodePin ''Y'' ''in'', NodePin ''X'' ''out''])]"

text \<open>
  A document with a channel named \<open>"nil"\<close>, as \<open>LoadJSON\<close> decodes it, and the graph
  that \<open>RefreshChannelsPins\<close> makes of it: the unconnected pins of \<open>B\<close> and \<open>C\<close> are
  in the cache of the channel \<open>"nil"\<close>, and \<open>c\<close>, wired to one pin, is pruned.
\<close>

definition nil_example :: "unit Graph" where
  "nil_example = ex_graph
      [(''A'', ex_node ''A'' [] [(''p'', ''c'')]),
       (''B'', ex_node ''B'' [] [(''q'', ''nil'')]),
       (''C'', ex_node ''C'' [] [(''r'', ''nil'')])]
      [(''nil'', ex_chan ''nil'' []), (''c'', ex_chan ''c'' [])]"

definition nil_refreshed :: "unit Graph" where
  "nil_refreshed = ex_graph
      [(''A'', ex_node ''A'' [] [(''p'', ''nil'')]),
       (''B'', ex_node ''B'' [] [(''q'', ''nil'')]),
       (''C'', ex_node ''C'' [] [(''r'', ''nil'')])]
      [(''nil'', ex_chan ''nil'' [NodePin ''C'' ''r'', NodePin ''B'' ''q''])]"

text \<open>
  A graph with a stale cache: \<open>c\<close> caches the pin \<open>A.p\<close>, whose connection entry
  does not name \<open>c\<close>.
\<close>

definition stale_example :: "unit Graph" where
  "stale_example = ex_graph
      [(''A'', ex_node ''A'' [] [(''p'', ''nil'')]),
       (''B'', ex_node ''B'' [] [(''q'', ''c'')]),
       (''C'', ex_node ''C'' [] [(''r'', ''c'')])]
      [(''c'', ex_chan ''c'' [NodePin ''A'' ''p'', NodePin ''B'' ''q'', NodePin ''C'' ''r''])]"

text \<open>
  A node wired twice to \<open>c1\<close>, once to \<open>c2\<close>, and holding both pins of \<open>c3\<close>.
\<close>

definition deletion_example :: "unit Graph" where
  "deletion_example = ex_graph
     [(''X'', ex_node ''X'' []
         [(''a'', ''c1''), (''b'', ''c1''), (''d'', ''c2''), (''e'', ''c3''), (''f'', ''c3'')]),
      (''Y'', ex_node ''Y'' [] [(''in'', ''c1''), (''i2'', ''c2'')]),
      (''Z'', ex_node ''Z'' [] [(''z'', ''c2'')])]
     [(''c1'', ex_chan ''c1'' [NodePin ''Y'' ''in'', NodePin ''X'' ''a'', NodePin ''X'' ''b'']),
      (''c2'', ex_chan ''c2'' [NodePin ''X'' ''d'', NodePin ''Y'' ''i2'', NodePin ''Z'' ''z'']),
      (''c3'', ex_chan ''c3'' [NodePin ''X'' ''e'', NodePin ''X'' ''f''])]"

definition deletion_example_node :: "unit Node" where
  "deletion_example_node = ex_node ''X'' []
         [(''a'', ''c1''), (''b'', ''c1''), (''d'', ''c2''), (''e'', ''c3''), (''f'', ''c3'')]"

text \<open>
  Scenario A of the spec: a generic output wired to an \<open>int\<close> input; the same graph
  with type state left behind; the graph after a pass.
\<close>

definition scenario_A :: "SourceType Graph" where
  "scenario_A = tgraph
     [(''X'', tnode ''X'' [(''out'', ''$T'')] [(''out'', ''c'')]),
      (''Y'', tnode ''Y'' [(''in'', ''int'')] [(''in'', ''c'')])]
     [(''c'', ex_chan ''c'' [NodePin ''Y'' ''in'', NodePin ''X'' ''out''])]"

definition scenario_A_stale :: "SourceType Graph" where
  "scenario_A_stale =
     \<lparr>Nodes =
        [(''X'', (tnode ''X'' [(''out'', ''$T'')] [(''out'', ''c'')])
                   \<lparr>pinTypes := [(''out'', Named ''string'')], typeParams := [(''T'', ''string'')]\<rparr>),
         (''Y'', (tnode ''Y'' [(''in'', ''int'')] [(''in'', ''c'')])
                   \<lparr>pinTypes := [(''in'', Named ''string'')]\<rparr>)],
      Channels =
        [(''c'', (ex_chan ''c'' [NodePin ''Y'' ''in'', NodePin ''X'' ''out''])
                   \<lparr>Channel.Type := Some (NodePin ''X'' ''out'')\<rparr>)],
      types = [(TypeParam ''X'' ''T'', Named ''string'')]\<rparr>"

definition scenario_A_inferred :: "SourceType Graph" where
  "scenario_A_inferred =
     \<lparr>Nodes =
        [(''X'', (tnode ''X'' [(''out'', ''$T'')] [(''out'', ''c'')])
                   \<lparr>pinTypes := [(''out'', Named ''int'')], typeParams := [(''T'', ''int'')]\<rparr>),
         (''Y'', (tnode ''Y'' [(''in'', ''int'')] [(''in'', ''c'')])
                   \<lparr>pinTypes := [(''in'', Named ''int'')]\<rparr>)],
      Channels =
        [(''c'', (ex_chan ''c'' [NodePin ''Y'' ''in'', NodePin ''X'' ''out''])
                   \<lparr>Channel.Type := Some (NodePin ''Y'' ''in'')\<rparr>)],
      types = [(TypeParam ''X'' ''T'', Named ''int'')]\<rparr>"

text \<open>
  Scenario B of the spec: an \<open>int\<close> output wired to a \<open>string\<close> input.
\<close>

definition scenario_B :: "SourceType Graph" where
  "scenario_B = tgraph
     [(''X'', tnode ''X'' [(''out'', ''int'')] [(''out'', ''c'')]),
      (''Y'', tnode ''Y'' [(''in'', ''string'')] [(''in'', ''c'')])]
     [(''c'', ex_chan ''c'' [NodePin ''Y'' ''in'', NodePin ''X'' ''out''])]"

text \<open>
  Scenario C of the spec: a broadcaster fed \<open>int\<close>, one output wired and three
  unconnected; the broadcaster node as instantiated.
\<close>

definition scenario_C :: "SourceType Graph" where
  "scenario_C = tgraph
     [(''S'', tnode ''S'' [(''output'', ''int'')] [(''output'', ''c1'')]),
      (''B'', tnode ''B''
                [(''input'', ''$T''), (''output0'', ''$T''), (''output1'', ''$T''),
                 (''output2'', ''$T''), (''output3'', ''$T'')]
                [(''input'', ''c1''), (''output0'', ''c2''), (''output1'', ''nil''),
                 (''output2'', ''nil''), (''output3'', ''nil'')]),
      (''P'', tnode ''P'' [(''in'', ''int'')] [(''in'', ''c2'')])]
     [(''c1'', ex_chan ''c1'' [NodePin ''B'' ''input'', NodePin ''S'' ''output'']),
      (''c2'', ex_chan ''c2'' [NodePin ''P'' ''in'', NodePin ''B'' ''output0''])]"

definition broadcaster :: "SourceType Node" where
  "broadcaster =
     (tnode ''B''
        [(''input'', ''$T''), (''output0'', ''$T''), (''output1'', ''$T''),
         (''output2'', ''$T''), (''output3'', ''$T'')]
        [(''input'', ''c1''), (''output0'', ''c2''), (''output1'', ''nil''),
         (''output2'', ''nil''), (''output3'', ''nil'')])
     \<lparr>pinTypes := [(''input'', Param (TypeParam ''B'' ''T'')),
                   (''output0'', Param (TypeParam ''B'' ''T'')),
                   (''output1'', Param (TypeParam ''B'' ''T'')),
                   (''output2'', Param (TypeParam ''B'' ''T'')),
                   (''output3'', Param (TypeParam ''B'' ''T''))]\<rparr>"

text \<open>
  Scenario C after a pass.
\<close>

definition scenario_C_inferred :: "SourceType Graph" where
  "scenario_C_inferred =
     \<lparr>Nodes =
        [(''S'', (tnode ''S'' [(''output'', ''int'')] [(''output'', ''c1'')])
                   \<lparr>pinTypes := [(''output'', Named ''int'')]\<rparr>),
         (''B'', broadcaster
                   \<lparr>pinTypes := [(''input'', Named ''int''), (''output0'', Named ''int''),
                                 (''output1'', Named ''int''), (''output2'', Named ''int''),
                                 (''output3'', Named ''int'')],
                     typeParams := [(''T'', ''int'')]\<rparr>),
         (''P'', (tnode ''P'' [(''in'', ''int'')] [(''in'', ''c2'')])
                   \<lparr>pinTypes := [(''in'', Named ''int'')]\<rparr>)],
      Channels =
        [(''c1'', (ex_chan ''c1'' [NodePin ''B'' ''input'', NodePin ''S'' ''output''])
                    \<lparr>Channel.Type := Some (NodePin ''B'' ''input'')\<rparr>),
         (''c2'', (ex_chan ''c2'' [NodePin ''P'' ''in'', NodePin ''B'' ''output0''])
                    \<lparr>Channel.Type := Some (NodePin ''P'' ''in'')\<rparr>)],
      types = [(TypeParam ''B'' ''T'', Named ''int'')]\<rparr>"

text \<open>
  Two nodes with one unconnected pin each, an \<open>int\<close> output and a generic input, in
  a document with a channel named \<open>"nil"\<close>; the graph that \<open>RefreshChannelsPins\<close>
  makes of it; that graph after a pass.
\<close>

definition nil_typed :: "SourceType Graph" where
  "nil_typed = tgraph
     [(''X'', tnode ''X'' [(''out'', ''int'')] [(''out'', ''nil'')]),
      (''Y'', tnode ''Y'' [(''in'', ''$T'')] [(''in'', ''nil'')])]
     [(''nil'', ex_chan ''nil'' [])]"

definition nil_typed_refreshed :: "SourceType Graph" where
  "nil_typed_refreshed = tgraph
     [(''X'', tnode ''X'' [(''out'', ''int'')] [(''out'', ''nil'')]),
      (''Y'', tnode ''Y'' [(''in'', ''$T'')] [(''in'', ''nil'')])]
     [(''nil'', ex_chan ''nil'' [NodePin ''Y'' ''in'', NodePin ''X'' ''out''])]"

definition nil_typed_inferred :: "SourceType Graph" where
  "nil_typed_inferred =
     \<lparr>Nodes =
        [(''X'', (tnode ''X'' [(''out'', ''int'')] [(''out'', ''nil'')])
                   \<lparr>pinTypes := [(''out'', Named ''int'')]\<rparr>),
         (''Y'', (tnode ''Y'' [(''in'', ''$T'')] [(''in'', ''nil'')])
                   \<lparr>pinTypes := [(''in'', Named ''int'')], typeParams := [(''T'', ''int'')]\<rparr>)],
      Channels =
        [(''nil'', (ex_chan ''nil'' [NodePin ''Y'' ''in'', NodePin ''X'' ''out''])
                     \<lparr>Channel.Type := Some (NodePin ''Y'' ''in'')\<rparr>)],
      types = [(TypeParam ''Y'' ''T'', Named ''int'')]\<rparr>"








section \<open>Bookkeeping lemmas\<close>

lemma disconnected_Nil [simp]: "disconnected k [] n = n"
  by (simp add: disconnected_def)

lemma disconnected_Cons:
  "disconnected k (np # nps) n =
     disconnected k nps
       (if Node np = k then n\<lparr>Connections := AList.update (Pin np) ''nil'' (Connections n)\<rparr> else n)"
  by (simp add: disconnected_def)

lemma disconnect_pins_ok:
  "\<forall>np \<in> set nps. map_of ns (Node np) \<noteq> None \<Longrightarrow>
   \<exists>ns'. disconnect_pins nps ns = Inr ns' \<and> map fst ns' = map fst ns \<and>
         (\<forall>k. map_of ns' k = map_option (disconnected k nps) (map_of ns k))"
proof (induction nps arbitrary: ns)
  case Nil
  then show ?case by (simp add: option.map_ident)
next
  case (Cons np nps)
  from Cons.prems obtain n where n: "map_of ns (Node np) = Some n" by auto
  let ?n1 = "n\<lparr>Connections := AList.update (Pin np) ''nil'' (Connections n)\<rparr>"
  let ?ns1 = "AList.update (Node np) ?n1 ns"
  have keys: "map fst ?ns1 = map fst ns"
    using n by (auto simp: update_keys dest: map_of_SomeD intro: rev_image_eqI)
  have "\<forall>np' \<in> set nps. map_of ?ns1 (Node np') \<noteq> None"
    using Cons.prems by (simp add: update_conv')
  from Cons.IH[OF this] obtain ns' where
    r: "disconnect_pins nps ?ns1 = Inr ns'" and k: "map fst ns' = map fst ?ns1"
    and m: "\<forall>k. map_of ns' k = map_option (disconnected k nps) (map_of ?ns1 k)" by blast
  have "map_of ns' k = map_option (disconnected k (np # nps)) (map_of ns k)" for k
    using m n by (cases "Node np = k"; cases "map_of ns k") (auto simp: update_conv' disconnected_Cons)
  then show ?case using r k keys n by simp
qed

lemma disconnect_pins_panic:
  "\<not> list_all (\<lambda>np. map_of ns (Node np) \<noteq> None) nps \<Longrightarrow>
   \<exists>np \<in> set nps. map_of ns (Node np) = None \<and>
      disconnect_pins nps ns = Inl (Panic (''node '' @ Node np @ '' should exist''))"
proof (induction nps arbitrary: ns)
  case Nil
  then show ?case by simp
next
  case (Cons np nps)
  show ?case
  proof (cases "map_of ns (Node np)")
    case None
    then show ?thesis by simp
  next
    case (Some n)
    let ?ns1 = "AList.update (Node np)
               (n\<lparr>Connections := AList.update (Pin np) ''nil'' (Connections n)\<rparr>) ns"
    have dom: "\<And>k. map_of ?ns1 k = None \<longleftrightarrow> map_of ns k = None"
      using Some by (auto simp: update_conv')
    from Cons.prems Some have "\<not> list_all (\<lambda>np. map_of ?ns1 (Node np) \<noteq> None) nps"
      by (simp add: dom)
    from Cons.IH[OF this] show ?thesis using Some by (auto simp: dom)
  qed
qed

lemma Connections_disconnected:
  "map_of (Connections (disconnected k nps n)) p =
     (if NodePin k p \<in> set nps then Some ''nil'' else map_of (Connections n) p)"
proof (induction nps arbitrary: n)
  case Nil
  then show ?case by simp
next
  case (Cons np nps)
  show ?case
    by (cases np) (auto simp: disconnected_Cons Cons.IH update_conv')
qed

lemma DeleteChannel_ok:
  assumes "\<forall>np \<in> set (Channel.Pins ch). map_of (Nodes g) (Node np) \<noteq> None"
  shows "\<exists>g'. DeleteChannel g ch = Inr g' \<and>
           Channels g' = AList.delete (Channel.Name ch) (Channels g) \<and>
           types g' = types g \<and>
           map fst (Nodes g') = map fst (Nodes g) \<and>
           (\<forall>k. map_of (Nodes g') k = map_option (disconnected k (Channel.Pins ch)) (map_of (Nodes g) k))"
  using disconnect_pins_ok[OF assms] by (auto simp: DeleteChannel_def)

lemma added_Nil [simp]: "added k nm [] ch = ch"
  by (simp add: added_def)

lemma added_Cons:
  "added k nm ((p, co) # conns) ch = added k nm conns (if co = k then AddPin ch nm p else ch)"
  by (simp add: added_def AddPin_def)

lemma wired_Nil [simp]: "wired k [] ch = ch"
  by (simp add: wired_def)

lemma wired_Cons:
  "wired k ((kn, n) # ns) ch = wired k ns (added k (Node.Name n) (Connections n) ch)"
  by (simp add: wired_def)

lemma update_present_as_map:
  "distinct (map fst cs) \<Longrightarrow>
   (case map_of cs co of None \<Rightarrow> cs | Some ch \<Rightarrow> AList.update co (f ch) cs) =
     map (\<lambda>(k, ch). (k, if co = k then f ch else ch)) cs"
proof (induction cs)
  case Nil
  then show ?case by simp
next
  case (Cons a cs)
  obtain k c where a: "a = (k, c)" by (cases a)
  show ?case
  proof (cases "co = k")
    case True
    with Cons.prems a have "co \<notin> fst ` set cs" by auto
    then have "map (\<lambda>(k, ch). (k, if co = k then f ch else ch)) cs = cs"
      by (induction cs) auto
    with True a show ?thesis by simp
  next
    case False
    with Cons a show ?thesis by (cases "map_of cs co") simp_all
  qed
qed

lemma add_connections_map:
  "distinct (map fst cs) \<Longrightarrow>
   add_connections nm conns cs = map (\<lambda>(k, ch). (k, added k nm conns ch)) cs"
proof (induction conns arbitrary: cs)
  case Nil
  then show ?case by simp
next
  case (Cons a conns)
  obtain p co where a: "a = (p, co)" by (cases a)
  let ?cs1 = "map (\<lambda>(k, ch). (k, if co = k then AddPin ch nm p else ch)) cs"
  have step: "add_connections nm ((p, co) # conns) cs = add_connections nm conns ?cs1"
    using update_present_as_map[OF Cons.prems, of co "\<lambda>ch. AddPin ch nm p"]
    by (auto split: option.splits)
  have h: "map fst ?cs1 = map fst cs" by (induction cs) auto
  have "distinct (map fst ?cs1)" unfolding h by (rule Cons.prems)
  from Cons.IH[OF this] show ?case
    unfolding a step by (simp add: added_Cons case_prod_unfold comp_def)
qed

lemma add_nodes_map:
  "distinct (map fst cs) \<Longrightarrow> add_nodes ns cs = map (\<lambda>(k, ch). (k, wired k ns ch)) cs"
proof (induction ns arbitrary: cs)
  case Nil
  then show ?case by simp
next
  case (Cons a ns)
  obtain kn n where a: "a = (kn, n)" by (cases a)
  let ?cs1 = "map (\<lambda>(k, ch). (k, added k (Node.Name n) (Connections n) ch)) cs"
  have h: "map fst ?cs1 = map fst cs" by (induction cs) auto
  have "distinct (map fst ?cs1)" unfolding h by (rule Cons.prems)
  from Cons.IH[OF this] show ?case
    by (simp add: a add_connections_map[OF Cons.prems] wired_Cons case_prod_unfold comp_def)
qed

lemma added_fields:
  "Channel.Name (added k nm conns ch) = Channel.Name ch"
  "Channel.Type (added k nm conns ch) = Channel.Type ch"
  by (simp_all add: added_def)

lemma wired_fields:
  "Channel.Name (wired k ns ch) = Channel.Name ch \<and> Channel.Type (wired k ns ch) = Channel.Type ch"
  by (induction ns arbitrary: ch) (auto simp: wired_Cons added_fields)

lemma Pins_added:
  "set (Channel.Pins (added k nm conns ch)) =
     set (Channel.Pins ch) \<union> {NodePin nm p |p. (p, k) \<in> set conns}"
proof (induction conns arbitrary: ch)
  case Nil
  then show ?case by simp
next
  case (Cons a conns)
  obtain p co where a: "a = (p, co)" by (cases a)
  show ?case by (auto simp: a added_Cons Cons.IH AddPin_def)
qed

lemma distinct_added:
  "distinct (Channel.Pins ch) \<Longrightarrow> distinct (Channel.Pins (added k nm conns ch))"
proof (induction conns arbitrary: ch)
  case Nil
  then show ?case by simp
next
  case (Cons a conns)
  obtain p co where a: "a = (p, co)" by (cases a)
  show ?case using Cons.prems by (auto simp: a added_Cons AddPin_def intro!: Cons.IH)
qed

lemma Pins_wired:
  "set (Channel.Pins (wired k ns ch)) =
     set (Channel.Pins ch) \<union>
     {NodePin (Node.Name n) p |kn n p. (kn, n) \<in> set ns \<and> (p, k) \<in> set (Connections n)}"
proof (induction ns arbitrary: ch)
  case Nil
  then show ?case by simp
next
  case (Cons a ns)
  obtain kn n where a: "a = (kn, n)" by (cases a)
  show ?case by (auto simp: a wired_Cons Cons.IH Pins_added)
qed

lemma distinct_wired:
  "distinct (Channel.Pins ch) \<Longrightarrow> distinct (Channel.Pins (wired k ns ch))"
proof (induction ns arbitrary: ch)
  case Nil
  then show ?case by simp
next
  case (Cons a ns)
  obtain kn n where a: "a = (kn, n)" by (cases a)
  show ?case using Cons.prems by (auto simp: a wired_Cons intro!: Cons.IH distinct_added)
qed

lemma rebuilt_caches_map:
  "distinct (map fst (Channels g)) \<Longrightarrow>
   rebuilt_caches g =
     map (\<lambda>(k, ch). (k, wired k (Nodes g) (ch\<lparr>Channel.Pins := []\<rparr>))) (Channels g)"
proof -
  assume d: "distinct (map fst (Channels g))"
  have h: "map fst (reset_caches (Channels g)) = map fst (Channels g)"
    by (simp add: reset_caches_def case_prod_unfold comp_def)
  have "distinct (map fst (reset_caches (Channels g)))" unfolding h by (rule d)
  from add_nodes_map[OF this] show ?thesis
    by (simp add: rebuilt_caches_def reset_caches_def case_prod_unfold comp_def)
qed

lemma disconnected_append:
  "disconnected k (xs @ ys) n = disconnected k ys (disconnected k xs n)"
  by (simp add: disconnected_def)

lemma delete_as_filter: "AList.delete k xs = filter (\<lambda>(k', v). k' \<noteq> k) xs"
  by (induction xs) auto

lemma prune_channels_ok:
  assumes "distinct (map fst rest)"
    and "\<forall>(k, ch) \<in> set rest. Channel.Name ch = k \<and> map_of (Channels g) k \<noteq> None \<and>
           (\<forall>np \<in> set (Channel.Pins ch). map_of (Nodes g) (Node np) \<noteq> None)"
  shows "\<exists>g'. prune_channels rest g = Inr g' \<and>
           Channels g' = filter (\<lambda>(k, c). k \<notin> fst ` set (doomed rest)) (Channels g) \<and>
           types g' = types g \<and> map fst (Nodes g') = map fst (Nodes g) \<and>
           (\<forall>kn. map_of (Nodes g') kn =
                 map_option (disconnected kn (doomed_pins rest)) (map_of (Nodes g) kn))"
  using assms
proof (induction rest arbitrary: g)
  case Nil
  then show ?case by (simp add: doomed_def doomed_pins_def option.map_ident)
next
  case (Cons a rest)
  obtain k ch where a: "a = (k, ch)" by (cases a)
  from Cons.prems a have nm: "Channel.Name ch = k" and pres: "map_of (Channels g) k \<noteq> None"
    and nodes: "\<forall>np \<in> set (Channel.Pins ch). map_of (Nodes g) (Node np) \<noteq> None"
    and knew: "k \<notin> fst ` set rest" and dist: "distinct (map fst rest)"
    by auto
  show ?case
  proof (cases "length (Channel.Pins ch) < 2")
    case False
    have "\<exists>g'. prune_channels rest g = Inr g' \<and>
           Channels g' = filter (\<lambda>(k, c). k \<notin> fst ` set (doomed rest)) (Channels g) \<and>
           types g' = types g \<and> map fst (Nodes g') = map fst (Nodes g) \<and>
           (\<forall>kn. map_of (Nodes g') kn =
                 map_option (disconnected kn (doomed_pins rest)) (map_of (Nodes g) kn))"
      using Cons.prems by (intro Cons.IH) auto
    with False pres a show ?thesis by (simp add: doomed_def doomed_pins_def)
  next
    case True
    from DeleteChannel_ok[OF nodes] obtain g1 where
      g1: "DeleteChannel g ch = Inr g1" "Channels g1 = AList.delete k (Channels g)"
        "types g1 = types g" "map fst (Nodes g1) = map fst (Nodes g)"
        "\<forall>kn. map_of (Nodes g1) kn = map_option (disconnected kn (Channel.Pins ch)) (map_of (Nodes g) kn)"
      using nm by blast
    have "\<forall>(k', ch') \<in> set rest. Channel.Name ch' = k' \<and> map_of (Channels g1) k' \<noteq> None \<and>
           (\<forall>np \<in> set (Channel.Pins ch'). map_of (Nodes g1) (Node np) \<noteq> None)"
      using Cons.prems(2) knew g1(2,5) by (auto simp: delete_conv' rev_image_eqI)
    from Cons.IH[OF dist this] obtain g' where
      g': "prune_channels rest g1 = Inr g'"
        "Channels g' = filter (\<lambda>(k, c). k \<notin> fst ` set (doomed rest)) (Channels g1)"
        "types g' = types g1" "map fst (Nodes g') = map fst (Nodes g1)"
        "\<forall>kn. map_of (Nodes g') kn =
                 map_option (disconnected kn (doomed_pins rest)) (map_of (Nodes g1) kn)"
      by blast
    have d: "doomed (a # rest) = (k, ch) # doomed rest"
      using True a by (simp add: doomed_def)
    have "Channels g' = filter (\<lambda>(k, c). k \<notin> fst ` set (doomed (a # rest))) (Channels g)"
      unfolding g'(2) g1(2) d delete_as_filter by (auto intro!: filter_cong)
    moreover have "map_of (Nodes g') kn =
        map_option (disconnected kn (doomed_pins (a # rest))) (map_of (Nodes g) kn)" for kn
      using g'(5) g1(5)
      by (cases "map_of (Nodes g) kn") (simp_all add: doomed_pins_def d disconnected_append)
    ultimately show ?thesis
      using True pres a g1(1,3,4) g'(1,3,4) by auto
  qed
qed

lemma prune_channels_none:
  "\<forall>(k, ch) \<in> set rest. 2 \<le> length (Channel.Pins ch) \<Longrightarrow> prune_channels rest g = Inr g"
  by (induction rest arbitrary: g) auto

lemma filter_doomed:
  assumes "distinct (map fst cs)"
  shows "filter (\<lambda>(k, c). k \<notin> fst ` set (doomed cs)) cs =
         filter (\<lambda>(k, ch). 2 \<le> length (Channel.Pins ch)) cs"
proof (rule filter_cong[OF refl])
  fix x assume x: "x \<in> set cs"
  obtain k ch where kc: "x = (k, ch)" by (cases x)
  have "k \<in> fst ` set (doomed cs) \<longleftrightarrow> length (Channel.Pins ch) < 2"
  proof
    assume "k \<in> fst ` set (doomed cs)"
    then obtain ch' where "(k, ch') \<in> set cs" "length (Channel.Pins ch') < 2"
      by (auto simp: doomed_def)
    moreover have "ch' = ch"
      using assms x kc calculation(1) by (meson eq_key_imp_eq_value)
    ultimately show "length (Channel.Pins ch) < 2" by simp
  next
    assume "length (Channel.Pins ch) < 2"
    with x kc show "k \<in> fst ` set (doomed cs)" by (force simp: doomed_def)
  qed
  then show "(case x of (k, c) \<Rightarrow> k \<notin> fst ` set (doomed cs)) =
             (case x of (k, ch) \<Rightarrow> 2 \<le> length (Channel.Pins ch))"
    using kc by auto
qed

lemma RefreshChannelsPins_result:
  assumes nc: "names_cached g" and dc: "distinct (map fst (Channels g))"
  shows "\<exists>g'. RefreshChannelsPins g = Inr g' \<and>
           Channels g' = filter (\<lambda>(k, ch). 2 \<le> length (Channel.Pins ch)) (rebuilt_caches g) \<and>
           types g' = types g \<and> map fst (Nodes g') = map fst (Nodes g) \<and>
           (\<forall>kn. map_of (Nodes g') kn =
                 map_option (disconnected kn (doomed_pins (rebuilt_caches g))) (map_of (Nodes g) kn))"
proof -
  let ?cs = "rebuilt_caches g"
  let ?g1 = "g\<lparr>Channels := ?cs\<rparr>"
  have cs: "?cs = map (\<lambda>(k, ch). (k, wired k (Nodes g) (ch\<lparr>Channel.Pins := []\<rparr>))) (Channels g)"
    by (rule rebuilt_caches_map[OF dc])
  have keys: "map fst ?cs = map fst (Channels g)"
    unfolding cs by (simp add: case_prod_unfold comp_def)
  have d: "distinct (map fst ?cs)" unfolding keys by (rule dc)
  have nodes_named: "\<forall>(kn, n) \<in> set (Nodes g). Node.Name n = kn"
    using nc by (simp add: names_cached_def list_all_iff)
  have chans_named: "\<forall>(k, c) \<in> set (Channels g). Channel.Name c = k"
    using nc by (simp add: names_cached_def list_all_iff)
  have "\<forall>(k, ch) \<in> set ?cs. Channel.Name ch = k \<and> map_of (Channels ?g1) k \<noteq> None \<and>
           (\<forall>np \<in> set (Channel.Pins ch). map_of (Nodes ?g1) (Node np) \<noteq> None)"
  proof (clarify, intro conjI ballI)
    fix k ch assume m: "(k, ch) \<in> set ?cs"
    then obtain c0 where c0: "(k, c0) \<in> set (Channels g)"
      and ch: "ch = wired k (Nodes g) (c0\<lparr>Channel.Pins := []\<rparr>)"
      unfolding cs by auto
    show "Channel.Name ch = k" using c0 chans_named by (auto simp: ch wired_fields)
    show "map_of (Channels ?g1) k \<noteq> None"
      using m d by (simp add: map_of_eq_None_iff rev_image_eqI)
    fix np assume "np \<in> set (Channel.Pins ch)"
    then obtain kn n p where "np = NodePin (Node.Name n) p" "(kn, n) \<in> set (Nodes g)"
      by (auto simp: ch Pins_wired)
    with nodes_named have "Node np \<in> fst ` set (Nodes g)" by force
    then show "map_of (Nodes ?g1) (Node np) \<noteq> None" by (simp add: map_of_eq_None_iff)
  qed
  from prune_channels_ok[OF d this] show ?thesis
    by (simp add: RefreshChannelsPins_def filter_doomed[OF d])
qed

lemma disconnect_pins_Inr:
  "disconnect_pins nps ns = Inr ns' \<Longrightarrow> \<forall>np \<in> set nps. map_of ns (Node np) \<noteq> None"
proof (rule ccontr)
  assume a: "disconnect_pins nps ns = Inr ns'"
    and "\<not> (\<forall>np \<in> set nps. map_of ns (Node np) \<noteq> None)"
  then have "\<not> list_all (\<lambda>np. map_of ns (Node np) \<noteq> None) nps"
    by (simp add: list_all_iff)
  from disconnect_pins_panic[OF this] a show False by auto
qed

lemma DeleteChannel_Inr_keys:
  "DeleteChannel g ch = Inr g' \<Longrightarrow> map fst (Nodes g') = map fst (Nodes g)"
proof -
  assume a: "DeleteChannel g ch = Inr g'"
  then obtain ns' where ns': "disconnect_pins (Channel.Pins ch) (Nodes g) = Inr ns'"
    by (auto simp: DeleteChannel_def split: sum.splits)
  from DeleteChannel_ok[OF disconnect_pins_Inr[OF ns']] a show ?thesis by auto
qed

lemma DeleteChannels_Inr_keys:
  "DeleteChannels chs g = Inr g' \<Longrightarrow> map fst (Nodes g') = map fst (Nodes g)"
proof (induction chs arbitrary: g)
  case Nil
  then show ?case by simp
next
  case (Cons ch chs)
  then show ?case
    by (auto split: sum.splits dest!: DeleteChannel_Inr_keys)
qed

lemma without_pins_Cons_other:
  "k \<noteq> cn \<or> cn = ''nil'' \<Longrightarrow>
   without_pins k nm ((p, cn) # conns) ch = without_pins k nm conns ch"
  by (cases ch) (auto simp: without_pins_def intro!: filter_cong)

lemma without_pins_Cons_same:
  "cn \<noteq> ''nil'' \<Longrightarrow>
   without_pins cn nm ((p, cn) # conns) ch = without_pins cn nm conns (RemovePin ch nm p)"
  by (cases ch)
    (auto simp: without_pins_def RemovePin_def removeAll_filter_not_eq
      intro!: filter_cong NodePin.expand)

lemma remove_node_pins_skip:
  "remove_node_pins nm cc conns cs rem =
   remove_node_pins nm cc
     (map (\<lambda>(p, cn). (p, if map_of cs cn = None then ''nil'' else cn)) conns) cs rem"
proof (induction conns arbitrary: cs rem)
  case Nil
  then show ?case by simp
next
  case (Cons a conns)
  obtain p cn where a: "a = (p, cn)" by (cases a)
  show ?case
  proof (cases "cn = ''nil'' \<or> map_of cs cn = None")
    case True
    then show ?thesis using Cons.IH[of cs rem] by (auto simp: a)
  next
    case False
    then obtain ch where ch: "map_of cs cn = Some ch" and nn: "cn \<noteq> ''nil''" by auto
    let ?cs1 = "AList.update cn (RemovePin ch nm p) cs"
    have dom: "\<And>x. (map_of ?cs1 x = None) = (map_of cs x = None)"
      using ch by (auto simp: update_conv')
    show ?thesis
      using Cons.IH[of ?cs1] by (simp add: a ch nn dom Let_def)
  qed
qed

lemma remove_node_pins_idle:
  "list_all (\<lambda>(p, cn). cn = ''nil'' \<or> map_of cs cn = None) conns \<Longrightarrow>
   remove_node_pins nm cc conns cs rem = (cs, rem)"
  by (induction conns arbitrary: rem) auto

lemma remove_node_pins_chans:
  "fst (remove_node_pins nm cc conns cs rem) = fst (remove_node_pins nm False conns cs [])"
proof (induction conns arbitrary: cs rem)
  case Nil
  then show ?case by simp
next
  case (Cons a conns)
  obtain p cn where a: "a = (p, cn)" by (cases a)
  show ?case
    using Cons.IH by (auto simp: a Let_def split: option.splits)
qed

lemma remove_node_pins_unmarked:
  "snd (remove_node_pins nm False conns cs rem) = rem"
proof (induction conns arbitrary: cs rem)
  case Nil
  then show ?case by simp
next
  case (Cons a conns)
  obtain p cn where a: "a = (p, cn)" by (cases a)
  show ?case
    using Cons.IH by (auto simp: a Let_def split: option.splits)
qed

lemma remove_node_pins_lookup:
  "map fst (fst (remove_node_pins nm cc conns cs rem)) = map fst cs \<and>
   (\<forall>k. map_of (fst (remove_node_pins nm cc conns cs rem)) k =
      map_option (without_pins k nm conns) (map_of cs k))"
proof (induction conns arbitrary: cs rem)
  case Nil
  then show ?case by (simp add: without_pins_def option.map_ident)
next
  case (Cons a conns)
  obtain p cn where a: "a = (p, cn)" by (cases a)
  show ?case
  proof (cases "cn = ''nil'' \<or> map_of cs cn = None")
    case True
    have "map_option (without_pins k nm (a # conns)) (map_of cs k) =
          map_option (without_pins k nm conns) (map_of cs k)" for k
      using True by (cases "map_of cs k"; cases "k = cn") (auto simp: a without_pins_Cons_other)
    then show ?thesis using True Cons.IH[of cs rem] by (auto simp: a)
  next
    case False
    then obtain ch where ch: "map_of cs cn = Some ch" and nn: "cn \<noteq> ''nil''" by auto
    let ?cs1 = "AList.update cn (RemovePin ch nm p) cs"
    let ?rem1 = "if cc \<and> length (Channel.Pins (RemovePin ch nm p)) < 2 then rem @ [cn] else rem"
    have step: "remove_node_pins nm cc (a # conns) cs rem = remove_node_pins nm cc conns ?cs1 ?rem1"
      by (simp add: a ch nn Let_def)
    have keys: "map fst ?cs1 = map fst cs"
      using ch by (auto simp: update_keys dest: map_of_SomeD intro: rev_image_eqI)
    have "map_option (without_pins k nm conns) (map_of ?cs1 k) =
          map_option (without_pins k nm (a # conns)) (map_of cs k)" for k
    proof (cases "k = cn")
      case True
      with ch nn show ?thesis by (simp add: update_conv' a without_pins_Cons_same)
    next
      case False
      then show ?thesis
        by (cases "map_of cs k") (auto simp: update_conv' a without_pins_Cons_other)
    qed
    with Cons.IH[of ?cs1 ?rem1] keys show ?thesis unfolding step by simp
  qed
qed

lemma touched_Cons:
  "touched ((p, cn) # conns) cs =
     (if cn \<noteq> ''nil'' \<and> map_of cs cn \<noteq> None then insert cn (touched conns cs)
      else touched conns cs)"
  by (auto simp: touched_def)

lemma touched_update:
  "map_of cs cn = Some ch \<Longrightarrow> touched conns (AList.update cn ch' cs) = touched conns cs"
  by (auto simp: touched_def update_conv')

lemma without_pins_untouched:
  "cn \<notin> snd ` set conns \<Longrightarrow> without_pins cn nm conns ch = ch"
proof -
  assume a: "cn \<notin> snd ` set conns"
  have "filter (\<lambda>np. \<not> (Node np = nm \<and> (Pin np, cn) \<in> set conns \<and> cn \<noteq> ''nil''))
          (Channel.Pins ch) = Channel.Pins ch"
    using a by (intro filter_True) force
  then show ?thesis by (simp add: without_pins_def)
qed

lemma length_without_pins:
  "length (Channel.Pins (without_pins k nm conns ch)) \<le> length (Channel.Pins ch)"
  by (simp add: without_pins_def)

lemma remove_node_pins_marks:
  "set (snd (remove_node_pins nm True conns cs rem)) =
     set rem \<union> {cn \<in> touched conns cs. \<exists>ch. map_of cs cn = Some ch \<and>
                    length (Channel.Pins (without_pins cn nm conns ch)) < 2}"
proof (induction conns arbitrary: cs rem)
  case Nil
  then show ?case by (simp add: touched_def)
next
  case (Cons a conns)
  obtain p cn where a: "a = (p, cn)" by (cases a)
  show ?case
  proof (cases "cn = ''nil'' \<or> map_of cs cn = None")
    case True
    have same: "without_pins k nm (a # conns) c = without_pins k nm conns c"
      if "map_of cs k = Some c" for k c
      using True that unfolding a by (intro without_pins_Cons_other) auto
    have "{k \<in> touched (a # conns) cs. \<exists>ch. map_of cs k = Some ch \<and>
              length (Channel.Pins (without_pins k nm (a # conns) ch)) < 2} =
          {k \<in> touched conns cs. \<exists>ch. map_of cs k = Some ch \<and>
              length (Channel.Pins (without_pins k nm conns ch)) < 2}"
    proof (rule Collect_cong)
      fix k
      have t: "touched (a # conns) cs = touched conns cs"
        using True by (auto simp: a touched_Cons)
      show "(k \<in> touched (a # conns) cs \<and> (\<exists>ch. map_of cs k = Some ch \<and>
              length (Channel.Pins (without_pins k nm (a # conns) ch)) < 2)) =
            (k \<in> touched conns cs \<and> (\<exists>ch. map_of cs k = Some ch \<and>
              length (Channel.Pins (without_pins k nm conns ch)) < 2))"
        unfolding t using same by auto
    qed
    with True Cons.IH[of cs rem] show ?thesis by (auto simp: a)
  next
    case False
    then obtain ch where ch: "map_of cs cn = Some ch" and nn: "cn \<noteq> ''nil''" by auto
    let ?ch1 = "RemovePin ch nm p"
    let ?cs1 = "AList.update cn ?ch1 cs"
    let ?rem1 = "if length (Channel.Pins ?ch1) < 2 then rem @ [cn] else rem"
    let ?L = "length (Channel.Pins (without_pins cn nm conns ?ch1))"
    have step: "remove_node_pins nm True (a # conns) cs rem = remove_node_pins nm True conns ?cs1 ?rem1"
      by (simp add: a ch nn Let_def)
    have ih: "set (snd (remove_node_pins nm True conns ?cs1 ?rem1)) =
       set ?rem1 \<union> {k \<in> touched conns cs. \<exists>c. map_of ?cs1 k = Some c \<and>
                    length (Channel.Pins (without_pins k nm conns c)) < 2}"
      using Cons.IH[of ?cs1 ?rem1] by (simp only: touched_update[OF ch])
    have key: "length (Channel.Pins ?ch1) < 2 \<or> (cn \<in> touched conns cs \<and> ?L < 2) \<longleftrightarrow> ?L < 2"
    proof
      assume "length (Channel.Pins ?ch1) < 2 \<or> (cn \<in> touched conns cs \<and> ?L < 2)"
      then show "?L < 2"
        using length_without_pins[of cn nm conns ?ch1] by auto
    next
      assume L: "?L < 2"
      show "length (Channel.Pins ?ch1) < 2 \<or> (cn \<in> touched conns cs \<and> ?L < 2)"
      proof (cases "cn \<in> snd ` set conns")
        case True
        with nn ch L show ?thesis by (auto simp: touched_def)
      next
        case False
        from without_pins_untouched[OF this] L show ?thesis by simp
      qed
    qed
    have "x \<in> set ?rem1 \<union> {k \<in> touched conns cs. \<exists>c. map_of ?cs1 k = Some c \<and>
                    length (Channel.Pins (without_pins k nm conns c)) < 2} \<longleftrightarrow>
          x \<in> set rem \<union> {k \<in> touched (a # conns) cs. \<exists>c. map_of cs k = Some c \<and>
                    length (Channel.Pins (without_pins k nm (a # conns) c)) < 2}" for x
    proof (cases "x = cn")
      case True
      have "x \<in> set ?rem1 \<union> {k \<in> touched conns cs. \<exists>c. map_of ?cs1 k = Some c \<and>
                    length (Channel.Pins (without_pins k nm conns c)) < 2} \<longleftrightarrow>
            cn \<in> set rem \<or> length (Channel.Pins ?ch1) < 2 \<or> (cn \<in> touched conns cs \<and> ?L < 2)"
        using True by (auto simp: update_conv')
      also have "\<dots> \<longleftrightarrow> cn \<in> set rem \<or> ?L < 2" using key by blast
      also have "\<dots> \<longleftrightarrow> x \<in> set rem \<union> {k \<in> touched (a # conns) cs. \<exists>c. map_of cs k = Some c \<and>
                    length (Channel.Pins (without_pins k nm (a # conns) c)) < 2}"
        using True ch nn by (auto simp: a touched_Cons without_pins_Cons_same)
      finally show ?thesis .
    next
      case False
      then show ?thesis
        using ch nn by (auto simp: a touched_Cons update_conv' without_pins_Cons_other)
    qed
    then show ?thesis unfolding step ih by blast
  qed
qed

lemma DeleteChannels_ok:
  assumes "\<forall>ch \<in> set chs. \<forall>np \<in> set (Channel.Pins ch). map_of (Nodes g) (Node np) \<noteq> None"
  shows "\<exists>g'. DeleteChannels chs g = Inr g' \<and>
           Channels g' = filter (\<lambda>(k, c). k \<notin> Channel.Name ` set chs) (Channels g) \<and>
           types g' = types g \<and> map fst (Nodes g') = map fst (Nodes g)"
  using assms
proof (induction chs arbitrary: g)
  case Nil
  then show ?case by simp
next
  case (Cons ch chs)
  from Cons.prems have "\<forall>np \<in> set (Channel.Pins ch). map_of (Nodes g) (Node np) \<noteq> None" by simp
  from DeleteChannel_ok[OF this] obtain g1 where
    g1: "DeleteChannel g ch = Inr g1" "Channels g1 = AList.delete (Channel.Name ch) (Channels g)"
      "types g1 = types g" "map fst (Nodes g1) = map fst (Nodes g)"
    by blast
  have dom: "map_of (Nodes g1) x \<noteq> None \<longleftrightarrow> map_of (Nodes g) x \<noteq> None" for x
    using g1(4) by (metis map_of_eq_None_iff set_map)
  have "\<forall>c \<in> set chs. \<forall>np \<in> set (Channel.Pins c). map_of (Nodes g1) (Node np) \<noteq> None"
  proof (intro ballI)
    fix c np assume "c \<in> set chs" "np \<in> set (Channel.Pins c)"
    with Cons.prems have "map_of (Nodes g) (Node np) \<noteq> None" by auto
    then show "map_of (Nodes g1) (Node np) \<noteq> None" using dom by blast
  qed
  from Cons.IH[OF this] obtain g' where
    g': "DeleteChannels chs g1 = Inr g'"
      "Channels g' = filter (\<lambda>(k, c). k \<notin> Channel.Name ` set chs) (Channels g1)"
      "types g' = types g1" "map fst (Nodes g') = map fst (Nodes g1)"
    by blast
  have "Channels g' = filter (\<lambda>(k, c). k \<notin> Channel.Name ` set (ch # chs)) (Channels g)"
    unfolding g'(2) g1(2) delete_as_filter by (auto intro!: filter_cong)
  with g1 g' show ?case by simp
qed

lemma map_of_filter_keys:
  "map_of (filter (\<lambda>(k, v). P k) xs) k = (if P k then map_of xs k else None)"
  by (induction xs) auto

lemma DeleteNode_unfold:
  "DeleteNode g n cc =
     DeleteChannels
       (List.map_filter (map_of (fst (remove_node_pins (Node.Name n) False (Connections n) (Channels g) [])))
          (snd (remove_node_pins (Node.Name n) cc (Connections n) (Channels g) [])))
       (g\<lparr>Channels := fst (remove_node_pins (Node.Name n) False (Connections n) (Channels g) []),
          Nodes := AList.delete (Node.Name n) (Nodes g)\<rparr>)"
  using remove_node_pins_chans[of "Node.Name n" cc "Connections n" "Channels g" "[]"]
  by (simp add: DeleteNode_def split_beta)

lemma set_map_filter_map_of:
  "set (List.map_filter (map_of cs) ks) = {c. \<exists>k \<in> set ks. map_of cs k = Some c}"
  by (induction ks) (auto simp: List.map_filter_simps split: option.splits)

lemma pins_backedD:
  assumes "pins_backed g" and "map_of (Channels g) k = Some ch" and "np \<in> set (Channel.Pins ch)"
  shows "\<exists>n. map_of (Nodes g) (Node np) = Some n \<and> map_of (Connections n) (Pin np) = Some k"
proof -
  from assms(2) have "(k, ch) \<in> set (Channels g)" by (rule map_of_SomeD)
  with assms(1,3) show ?thesis
    by (fastforce simp: pins_backed_def list_all_iff split: option.splits)
qed

lemma without_pins_backed:
  assumes "pins_backed g" and "sentinel_free g" and "map_of (Nodes g) (Node.Name n) = Some n"
    and "map_of (Channels g) k = Some ch"
  shows "without_pins k (Node.Name n) (Connections n) ch =
         ch\<lparr>Channel.Pins := filter (\<lambda>np. Node np \<noteq> Node.Name n) (Channel.Pins ch)\<rparr>"
proof -
  have k: "k \<noteq> ''nil''" using assms(2,4) by (auto simp: sentinel_free_def)
  have "(\<not> (Node np = Node.Name n \<and> (Pin np, k) \<in> set (Connections n) \<and> k \<noteq> ''nil'')) =
        (Node np \<noteq> Node.Name n)" if "np \<in> set (Channel.Pins ch)" for np
  proof (cases "Node np = Node.Name n")
    case True
    from pins_backedD[OF assms(1,4) that] True assms(3)
    have "map_of (Connections n) (Pin np) = Some k" by auto
    then have "(Pin np, k) \<in> set (Connections n)" by (rule map_of_SomeD)
    with True k show ?thesis by simp
  next
    case False
    then show ?thesis by simp
  qed
  then have "filter (\<lambda>np. \<not> (Node np = Node.Name n \<and> (Pin np, k) \<in> set (Connections n) \<and> k \<noteq> ''nil''))
               (Channel.Pins ch) =
             filter (\<lambda>np. Node np \<noteq> Node.Name n) (Channel.Pins ch)"
    by (intro filter_cong) auto
  then show ?thesis by (simp add: without_pins_def)
qed

lemma alist_eq_map:
  "distinct (map fst xs) \<Longrightarrow> map fst ys = map fst xs \<Longrightarrow>
   (\<forall>k. map_of ys k = map_option (f k) (map_of xs k)) \<Longrightarrow>
   ys = map (\<lambda>(k, v). (k, f k v)) xs"
proof (induction xs arbitrary: ys)
  case Nil
  then show ?case by simp
next
  case (Cons x xs)
  obtain k v where x: "x = (k, v)" by (cases x)
  from Cons.prems(2) x obtain v' ys' where ys: "ys = (k, v') # ys'" and keys: "map fst ys' = map fst xs"
    by (cases ys) auto
  from Cons.prems(1) x have nk: "k \<notin> fst ` set xs" and d: "distinct (map fst xs)" by auto
  have v': "v' = f k v" using Cons.prems(3)[rule_format, of k] by (simp add: ys x)
  have "map_of ys' j = map_option (f j) (map_of xs j)" for j
  proof (cases "j = k")
    case True
    have "k \<notin> fst ` set ys'" using nk keys by (metis set_map)
    with nk True show ?thesis by (simp add: map_of_eq_None_iff[THEN iffD2])
  next
    case False
    with Cons.prems(3)[rule_format, of j] show ?thesis by (simp add: ys x)
  qed
  with Cons.IH[OF d keys] have "ys' = map (\<lambda>(k, v). (k, f k v)) xs" by blast
  with v' show ?case by (simp add: ys x)
qed

lemma wired_only_pins: "(wired k ns ch)\<lparr>Channel.Pins := []\<rparr> = ch\<lparr>Channel.Pins := []\<rparr>"
proof (induction ns arbitrary: ch)
  case Nil
  then show ?case by simp
next
  case (Cons a ns)
  obtain kn n where a: "a = (kn, n)" by (cases a)
  show ?case by (simp add: a wired_Cons Cons.IH added_def)
qed

lemma added_filter:
  "added k nm conns ch = added k nm (filter (\<lambda>(p, co). co = k) conns) ch"
proof (induction conns arbitrary: ch)
  case Nil
  then show ?case by simp
next
  case (Cons a conns)
  obtain p co where a: "a = (p, co)" by (cases a)
  show ?case using Cons.IH by (simp add: a added_Cons)
qed

lemma filter_update_other:
  "map_of conns p \<noteq> Some k \<Longrightarrow> v \<noteq> k \<Longrightarrow>
   filter (\<lambda>(p, co). co = k) (AList.update p v conns) = filter (\<lambda>(p, co). co = k) conns"
  by (induction conns) (auto split: if_splits)

lemma filter_disconnected:
  "\<forall>np \<in> set nps. Node np = kn \<longrightarrow> map_of (Connections n) (Pin np) \<noteq> Some k \<Longrightarrow> k \<noteq> ''nil'' \<Longrightarrow>
   filter (\<lambda>(p, co). co = k) (Connections (disconnected kn nps n)) =
   filter (\<lambda>(p, co). co = k) (Connections n)"
proof (induction nps arbitrary: n)
  case Nil
  then show ?case by simp
next
  case (Cons np nps)
  show ?case
  proof (cases "Node np = kn")
    case False
    with Cons show ?thesis by (simp add: disconnected_Cons)
  next
    case True
    let ?n1 = "n\<lparr>Connections := AList.update (Pin np) ''nil'' (Connections n)\<rparr>"
    have "\<forall>np' \<in> set nps. Node np' = kn \<longrightarrow> map_of (Connections ?n1) (Pin np') \<noteq> Some k"
      using Cons.prems by (auto simp: update_conv')
    from Cons.IH[OF this Cons.prems(2)] have
      "filter (\<lambda>(p, co). co = k) (Connections (disconnected kn nps ?n1)) =
       filter (\<lambda>(p, co). co = k) (AList.update (Pin np) ''nil'' (Connections n))" by simp
    also have "\<dots> = filter (\<lambda>(p, co). co = k) (Connections n)"
      using Cons.prems True by (intro filter_update_other) auto
    finally show ?thesis using True by (simp add: disconnected_Cons)
  qed
qed

lemma Name_disconnected [simp]: "Node.Name (disconnected kn nps n) = Node.Name n"
  by (simp add: disconnected_def)

lemma wired_map_nodes:
  "\<forall>(kn, n) \<in> set ns. Node.Name (f kn n) = Node.Name n \<and>
      filter (\<lambda>(p, co). co = k) (Connections (f kn n)) = filter (\<lambda>(p, co). co = k) (Connections n) \<Longrightarrow>
   wired k (map (\<lambda>(kn, n). (kn, f kn n)) ns) ch = wired k ns ch"
proof (induction ns arbitrary: ch)
  case Nil
  then show ?case by simp
next
  case (Cons a ns)
  obtain kn n where a: "a = (kn, n)" by (cases a)
  from Cons.prems a have nm: "Node.Name (f kn n) = Node.Name n"
    and fl: "filter (\<lambda>(p, co). co = k) (Connections (f kn n)) = filter (\<lambda>(p, co). co = k) (Connections n)"
    by auto
  have "added k (Node.Name (f kn n)) (Connections (f kn n)) ch = added k (Node.Name n) (Connections n) ch"
    using added_filter[of k "Node.Name n" "Connections (f kn n)" ch]
      added_filter[of k "Node.Name n" "Connections n" ch] by (simp add: nm fl)
  with Cons show ?case by (simp add: a wired_Cons)
qed

lemma RefreshChannelsPins_stable:
  assumes wf: "wf_graph g" and r: "RefreshChannelsPins g = Inr g'"
  shows "rebuilt_caches g' = Channels g'"
proof -
  let ?R = "doomed_pins (rebuilt_caches g)"
  from wf have nc: "names_cached g" and dc: "distinct (map fst (Channels g))"
    and dn: "distinct (map fst (Nodes g))"
    and dconn: "\<forall>(kn, n) \<in> set (Nodes g). distinct (map fst (Connections n))"
    and sf: "sentinel_free g"
    by (auto simp: wf_graph_def keys_distinct_def list_all_iff)
  have named: "\<forall>(kn, n) \<in> set (Nodes g). Node.Name n = kn"
    using nc by (simp add: names_cached_def list_all_iff)
  from RefreshChannelsPins_result[OF nc dc] r have
    cs': "Channels g' = filter (\<lambda>(k, ch). 2 \<le> length (Channel.Pins ch)) (rebuilt_caches g)"
    and keys: "map fst (Nodes g') = map fst (Nodes g)"
    and look: "\<forall>kn. map_of (Nodes g') kn = map_option (disconnected kn ?R) (map_of (Nodes g) kn)"
    by auto
  have ns': "Nodes g' = map (\<lambda>(kn, n). (kn, disconnected kn ?R n)) (Nodes g)"
    by (rule alist_eq_map[OF dn keys look])
  have rb: "rebuilt_caches g =
     map (\<lambda>(k, ch). (k, wired k (Nodes g) (ch\<lparr>Channel.Pins := []\<rparr>))) (Channels g)"
    by (rule rebuilt_caches_map[OF dc])
  have drb: "distinct (map fst (rebuilt_caches g))"
    unfolding rb using dc by (simp add: case_prod_unfold comp_def)
  have dc': "distinct (map fst (Channels g'))"
    unfolding cs' using drb by (simp add: distinct_map_filter)
  have "wired k (Nodes g') (ch\<lparr>Channel.Pins := []\<rparr>) = ch" if m: "(k, ch) \<in> set (Channels g')" for k ch
  proof -
    from m have len: "2 \<le> length (Channel.Pins ch)" and mr: "(k, ch) \<in> set (rebuilt_caches g)"
      by (auto simp: cs')
    from mr obtain c0 where c0: "(k, c0) \<in> set (Channels g)"
      and ch: "ch = wired k (Nodes g) (c0\<lparr>Channel.Pins := []\<rparr>)"
      unfolding rb by auto
    have k: "k \<noteq> ''nil''"
      using sf c0 dc by (auto simp: sentinel_free_def)
    have stable: "filter (\<lambda>(p, co). co = k) (Connections (disconnected kn ?R n)) =
                  filter (\<lambda>(p, co). co = k) (Connections n)"
      if n: "(kn, n) \<in> set (Nodes g)" for kn n
    proof (rule filter_disconnected[OF _ k], intro ballI impI)
      fix np assume np: "np \<in> set ?R" and node: "Node np = kn"
      from np obtain d dch where d: "(d, dch) \<in> set (rebuilt_caches g)"
        and short: "length (Channel.Pins dch) < 2" and npd: "np \<in> set (Channel.Pins dch)"
        by (auto simp: doomed_pins_def doomed_def)
      from d obtain d0 where dch: "dch = wired d (Nodes g) (d0\<lparr>Channel.Pins := []\<rparr>)"
        unfolding rb by auto
      from npd obtain kn1 n1 p where np_eq: "np = NodePin (Node.Name n1) p"
        and n1: "(kn1, n1) \<in> set (Nodes g)" and pd: "(p, d) \<in> set (Connections n1)"
        unfolding dch Pins_wired by auto
      from named n1 have "Node.Name n1 = kn1" by auto
      with node np_eq have "kn1 = kn" by simp
      with n1 n dn have "n1 = n" by (meson eq_key_imp_eq_value)
      with pd np_eq have "(Pin np, d) \<in> set (Connections n)" by simp
      moreover have "distinct (map fst (Connections n))" using dconn n by auto
      ultimately have "map_of (Connections n) (Pin np) = Some d" by simp
      moreover have "d \<noteq> k"
      proof
        assume "d = k"
        with d mr drb have "dch = ch" by (meson eq_key_imp_eq_value)
        with short len show False by simp
      qed
      ultimately show "map_of (Connections n) (Pin np) \<noteq> Some k" by simp
    qed
    have e: "ch\<lparr>Channel.Pins := []\<rparr> = c0\<lparr>Channel.Pins := []\<rparr>"
      unfolding ch by (simp add: wired_only_pins)
    have "wired k (Nodes g') (ch\<lparr>Channel.Pins := []\<rparr>) = wired k (Nodes g) (ch\<lparr>Channel.Pins := []\<rparr>)"
      unfolding ns' using stable by (intro wired_map_nodes) auto
    also have "\<dots> = ch" unfolding e by (simp add: ch)
    finally show ?thesis .
  qed
  then have "map (\<lambda>(k, ch). (k, wired k (Nodes g') (ch\<lparr>Channel.Pins := []\<rparr>))) (Channels g') =
             Channels g'"
    by (intro map_idI) auto
  with rebuilt_caches_map[OF dc'] show ?thesis by simp
qed

section \<open>Inference lemmas\<close>

lemma infer_pin_never_incompatible:
  "infer_pin ops ck np g nx \<noteq>
     Inl (TypeIncompatibilityError ''channel connected to incompatible types'' src)"
  by (simp add: infer_pin_def Let_def split: option.split sum.split prod.split)

lemma infer_pins_never_incompatible:
  "infer_pins ops ck nps g nx \<noteq>
     Inl (TypeIncompatibilityError ''channel connected to incompatible types'' src)"
proof (induction nps arbitrary: g nx)
  case Nil
  then show ?case by simp
next
  case (Cons np nps)
  show ?case
    using infer_pin_never_incompatible[of ops ck np g nx src]
    by (auto simp: Cons.IH split: sum.split prod.split)
qed

lemma map_of_forget_nodes:
  "map_of (forget_nodes ns) k = map_option forget_params (map_of ns k)"
  by (induction ns) (auto simp: forget_nodes_def)

lemma update_forget_nodes:
  "AList.update k (forget_params n) (forget_nodes ns) = forget_nodes (AList.update k n ns)"
  by (induction ns) (auto simp: forget_nodes_def)

lemma forget_params_fields [simp]:
  "pinTypes (forget_params n) = pinTypes n"
  "Connections (forget_params n) = Connections n"
  "Node.Name (forget_params n) = Node.Name n"
  "PartPins (forget_params n) = PartPins n"
  "forget_params (n\<lparr>pinTypes := pts\<rparr>) = (forget_params n)\<lparr>pinTypes := pts\<rparr>"
  by (simp_all add: forget_params_def)

lemma type_at_forget_nodes: "type_at (forget_nodes ns) r = type_at ns r"
  by (cases "map_of ns (Node r)") (simp_all add: type_at_def map_of_forget_nodes)

lemma set_type_at_forget_nodes:
  "set_type_at r t (forget_nodes ns) = forget_nodes (set_type_at r t ns)"
  by (cases "map_of ns (Node r)")
    (simp_all add: set_type_at_def map_of_forget_nodes update_forget_nodes[symmetric])

lemma applyTypeParams_forget:
  "applyTypeParams ops (forget_params n) m =
     map_sum id (\<lambda>(n', nx). (forget_params n', nx)) (applyTypeParams ops n m)"
  by (simp add: applyTypeParams_def split: sum.split prod.split)

lemma forget_fields [simp]:
  "Nodes (forget g) = forget_nodes (Nodes g)" "Channels (forget g) = Channels g"
  "types (forget g) = types g"
  "forget (g\<lparr>Channels := cs\<rparr>) = (forget g)\<lparr>Channels := cs\<rparr>"
  "forget (g\<lparr>Nodes := ns, types := m\<rparr>) = (forget g)\<lparr>Nodes := forget_nodes ns, types := m\<rparr>"
  by (simp_all add: forget_def)

lemma infer_pin_forget:
  "infer_pin ops ck np (forget g) nx =
     map_sum id (\<lambda>(g', nx'). (forget g', nx')) (infer_pin ops ck np g nx)"
proof (cases "map_of (Nodes g) (Node np)")
  case None
  then show ?thesis by (simp add: infer_pin_def map_of_forget_nodes)
next
  case n: (Some n)
  show ?thesis
  proof (cases "map_of (Channels g) ck")
    case None
    with n show ?thesis by (simp add: infer_pin_def map_of_forget_nodes)
  next
    case c: (Some c)
    show ?thesis
    proof (cases "Channel.Type c")
      case None
      with n c show ?thesis by (simp add: infer_pin_def map_of_forget_nodes)
    next
      case r: (Some r)
      show ?thesis
      proof (cases "type_at (Nodes g) r")
        case None
        with n c r show ?thesis
          by (simp add: infer_pin_def map_of_forget_nodes type_at_forget_nodes)
      next
        case ct: (Some ct)
        show ?thesis
        proof (cases "map_of (pinTypes n) (Pin np)")
          case None
          with n c r ct show ?thesis
            by (simp add: infer_pin_def map_of_forget_nodes type_at_forget_nodes)
        next
          case pt: (Some ptype)
          show ?thesis
          proof (cases "Refine ops ct (fst (Infer ops (types g) ct ptype))")
            case (Inl e)
            with n c r ct pt show ?thesis
              by (simp add: infer_pin_def map_of_forget_nodes type_at_forget_nodes)
          next
            case (Inr res)
            obtain ct' changed where res: "res = (ct', changed)" by (cases res)
            show ?thesis
            proof (cases "map_of (set_type_at r ct' (Nodes g)) (Node np)")
              case None
              with n c r ct pt Inr res show ?thesis
                by (simp add: infer_pin_def map_of_forget_nodes type_at_forget_nodes
                    set_type_at_forget_nodes)
            next
              case n1: (Some n1)
              show ?thesis
              proof (cases "applyTypeParams ops n1 (fst (Infer ops (types g) ct ptype))")
                case (Inl e)
                with n c r ct pt Inr res n1 show ?thesis
                  by (simp add: infer_pin_def map_of_forget_nodes type_at_forget_nodes
                    set_type_at_forget_nodes applyTypeParams_forget)
              next
                case ap: (Inr res2)
                obtain n2 nxcn where res2: "res2 = (n2, nxcn)" by (cases res2)
                with n c r ct pt Inr res n1 ap show ?thesis
                  by (simp add: infer_pin_def map_of_forget_nodes type_at_forget_nodes
                    set_type_at_forget_nodes applyTypeParams_forget update_forget_nodes)
              qed
            qed
          qed
        qed
      qed
    qed
  qed
qed

lemma infer_pins_forget:
  "infer_pins ops ck nps (forget g) nx =
     map_sum id (\<lambda>(g', nx'). (forget g', nx')) (infer_pins ops ck nps g nx)"
proof (induction nps arbitrary: g nx)
  case Nil
  then show ?case by simp
next
  case (Cons np nps)
  show ?case
    by (cases "infer_pin ops ck np g nx") (auto simp: infer_pin_forget Cons.IH)
qed

lemma inferChannelType_forget:
  "inferChannelType ops (forget g) ck =
     map_sum id (\<lambda>(g', nx'). (forget g', nx')) (inferChannelType ops g ck)"
  by (cases "map_of (Channels g) ck") (simp_all add: inferChannelType_def infer_pins_forget)

lemma flood_forget:
  "flood ops fuel q (forget g) = map_option (map_sum id forget) (flood ops fuel q g)"
proof (induction ops fuel q g rule: flood.induct)
  case (1 ops fuel g)
  then show ?case by simp
next
  case (2 ops c q g)
  then show ?case by simp
next
  case (3 ops fuel c q g)
  then show ?case
    by (cases "inferChannelType ops g c") (auto simp: inferChannelType_forget)
qed

lemma lithify_channels_forget:
  "lithify_channels ops cs (forget_nodes ns) = map_sum id forget_nodes (lithify_channels ops cs ns)"
proof (induction cs arbitrary: ns)
  case Nil
  then show ?case by simp
next
  case (Cons a cs)
  obtain k c where a: "a = (k, c)" by (cases a)
  show ?case
    by (simp add: a type_at_forget_nodes set_type_at_forget_nodes Cons.IH
        split: option.split)
qed

lemma lithify_nodes_forget: "lithify_nodes ops (forget_nodes ns) = lithify_nodes ops ns"
  by (induction ns) (auto simp: lithify_nodes_def forget_nodes_def forget_params_def)

lemma instantiate_nodes_clear:
  "instantiate_nodes ops (map (\<lambda>(k, n). (k, n\<lparr>pinTypes := [], typeParams := []\<rparr>)) ns) =
     map_sum id forget_nodes (instantiate_nodes ops ns)"
proof (induction ns)
  case Nil
  then show ?case by (simp add: forget_nodes_def)
next
  case (Cons a ns)
  obtain k n where a: "a = (k, n)" by (cases a)
  show ?case
    by (cases "instantiate_pins ops (Node.Name n) (PartPins n)"; cases "instantiate_nodes ops ns")
      (simp_all add: a Cons.IH forget_nodes_def forget_params_def)
qed

lemma InferTypes_clear_types: "InferTypes ops fuel (clear_types g) = InferTypes ops fuel g"
proof (cases "instantiate_nodes ops (Nodes g)")
  case (Inl e)
  then show ?thesis
    by (simp add: InferTypes_def clear_types_def instantiate_nodes_clear)
next
  case (Inr ns)
  let ?cs = "map (\<lambda>(k, c). (k, c\<lparr>Channel.Type := None\<rparr>)) (Channels g)"
  let ?g0 = "g\<lparr>Nodes := ns, Channels := ?cs, types := []\<rparr>"
  have start: "(clear_types g)\<lparr>Nodes := forget_nodes ns,
        Channels := map (\<lambda>(k, c). (k, c\<lparr>Channel.Type := None\<rparr>)) (Channels (clear_types g)),
        types := []\<rparr> = forget ?g0"
    by (simp add: clear_types_def forget_def case_prod_unfold comp_def)
  have keys: "map fst (Channels (clear_types g)) = map fst (Channels g)"
    by (simp add: clear_types_def case_prod_unfold comp_def)
  have inst: "instantiate_nodes ops (Nodes (clear_types g)) = Inr (forget_nodes ns)"
    using Inr by (simp add: clear_types_def instantiate_nodes_clear)
  show ?thesis
  proof (cases "flood ops fuel (map fst (Channels g)) ?g0")
    case None
    then show ?thesis
      by (simp add: InferTypes_def inst Inr start keys flood_forget)
  next
    case (Some res)
    show ?thesis
    proof (cases res)
      case (Inl e)
      with Some show ?thesis
        by (simp add: InferTypes_def inst Inr start keys flood_forget)
    next
      case g1: (Inr g1)
      show ?thesis
      proof (cases "lithify_channels ops (Channels g1) (Nodes g1)")
        case (Inl e)
        with Some g1 show ?thesis
          by (simp add: InferTypes_def inst Inr start keys flood_forget lithify_channels_forget)
      next
        case ns1: (Inr ns1)
        have "(forget g1)\<lparr>Nodes := ns2\<rparr> = g1\<lparr>Nodes := ns2\<rparr>" for ns2
          by (simp add: forget_def)
        with Some g1 ns1 show ?thesis
          by (simp add: InferTypes_def inst Inr start keys flood_forget lithify_channels_forget
              lithify_nodes_forget split: sum.split)
      qed
    qed
  qed
qed

lemma published_Nil [simp]: "published ops k [] acc = acc"
  by (simp add: published_def)

lemma published_Cons:
  "published ops k ((tp, typ) # m) acc =
     published ops k m (if Scope tp = k then AList.update (Ident tp) (String ops typ) acc else acc)"
  by (simp add: published_def)

lemma publish_types_lookup:
  "publish_types ops m ns = Inr ns' \<Longrightarrow>
   map fst ns' = map fst ns \<and>
   map (\<lambda>(k, n). pinTypes n) ns' = map (\<lambda>(k, n). pinTypes n) ns \<and>
   (\<forall>k. map_of ns' k =
      map_option (\<lambda>n. n\<lparr>typeParams := published ops k m (typeParams n)\<rparr>) (map_of ns k))"
proof (induction m arbitrary: ns)
  case Nil
  then show ?case by (simp add: option.map_ident)
next
  case (Cons a m)
  obtain tp ty where a: "a = (tp, ty)" by (cases a)
  from Cons.prems a obtain n where n: "map_of ns (Scope tp) = Some n"
    by (auto split: option.splits)
  let ?n1 = "n\<lparr>typeParams := AList.update (Ident tp) (String ops ty) (typeParams n)\<rparr>"
  let ?ns1 = "AList.update (Scope tp) ?n1 ns"
  from Cons.prems a n have r: "publish_types ops m ?ns1 = Inr ns'" by simp
  have keys: "map fst ?ns1 = map fst ns"
    using n by (auto simp: update_keys dest: map_of_SomeD intro: rev_image_eqI)
  have pts: "map (\<lambda>(k, n). pinTypes n) ?ns1 = map (\<lambda>(k, n). pinTypes n) ns"
    using n by (induction ns) (auto split: if_splits)
  have "map_option (\<lambda>n. n\<lparr>typeParams := published ops k m (typeParams n)\<rparr>) (map_of ?ns1 k) =
        map_option (\<lambda>n. n\<lparr>typeParams := published ops k (a # m) (typeParams n)\<rparr>) (map_of ns k)"
    for k
    using n by (cases "Scope tp = k"; cases "map_of ns k") (auto simp: update_conv' a published_Cons)
  with Cons.IH[OF r] keys pts show ?case by simp
qed





lemma map_of_lithify_nodes:
  "map_of (lithify_nodes ops ns) k =
     map_option (\<lambda>n. n\<lparr>pinTypes := map (\<lambda>(pn, pt). (pn, Lithify ops pt (typeEmptyInterface ops)))
                                    (pinTypes n),
                        typeParams := []\<rparr>) (map_of ns k)"
  by (induction ns) (auto simp: lithify_nodes_def)

lemma type_at_lithify_nodes:
  "type_at (lithify_nodes ops ns) r =
     map_option (\<lambda>t. Lithify ops t (typeEmptyInterface ops)) (type_at ns r)"
proof (cases "map_of ns (Node r)")
  case None
  then show ?thesis by (simp add: type_at_def map_of_lithify_nodes)
next
  case (Some n)
  have "map_of (map (\<lambda>(pn, pt). (pn, f pt)) pts) p = map_option f (map_of pts p)" for f pts p
    by (induction pts) auto
  with Some show ?thesis by (simp add: type_at_def map_of_lithify_nodes)
qed

lemma type_at_publish_types:
  "publish_types ops m ns = Inr ns' \<Longrightarrow> type_at ns' r = type_at ns r"
  using publish_types_lookup[of ops m ns ns']
  by (cases "map_of ns (Node r)") (auto simp: type_at_def)



lemma RefreshChannelsPins_backed:
  assumes wf: "wf_graph g" and r: "RefreshChannelsPins g = Inr g'"
  shows "pins_backed g' \<and> sentinel_free g'"
proof -
  let ?R = "doomed_pins (rebuilt_caches g)"
  from wf have nc: "names_cached g" and dc: "distinct (map fst (Channels g))"
    and dn: "distinct (map fst (Nodes g))"
    and dconn: "\<forall>(kn, n) \<in> set (Nodes g). distinct (map fst (Connections n))"
    and sf: "sentinel_free g"
    by (auto simp: wf_graph_def keys_distinct_def list_all_iff)
  have named: "\<forall>(kn, n) \<in> set (Nodes g). Node.Name n = kn"
    using nc by (simp add: names_cached_def list_all_iff)
  from RefreshChannelsPins_result[OF nc dc] r have
    cs': "Channels g' = filter (\<lambda>(k, ch). 2 \<le> length (Channel.Pins ch)) (rebuilt_caches g)"
    and look: "\<forall>kn. map_of (Nodes g') kn = map_option (disconnected kn ?R) (map_of (Nodes g) kn)"
    by auto
  have rb: "rebuilt_caches g =
     map (\<lambda>(k, ch). (k, wired k (Nodes g) (ch\<lparr>Channel.Pins := []\<rparr>))) (Channels g)"
    by (rule rebuilt_caches_map[OF dc])
  have drb: "distinct (map fst (rebuilt_caches g))"
    unfolding rb using dc by (simp add: case_prod_unfold comp_def)
  have wired_pin: "\<exists>n. map_of (Nodes g) (Node np) = Some n \<and> map_of (Connections n) (Pin np) = Some k"
    if m: "(k, ch) \<in> set (rebuilt_caches g)" and np: "np \<in> set (Channel.Pins ch)" for k ch np
  proof -
    from m obtain c0 where ch: "ch = wired k (Nodes g) (c0\<lparr>Channel.Pins := []\<rparr>)"
      unfolding rb by auto
    from np obtain kn n p where np_eq: "np = NodePin (Node.Name n) p"
      and n: "(kn, n) \<in> set (Nodes g)" and pk: "(p, k) \<in> set (Connections n)"
      unfolding ch Pins_wired by auto
    from named n have nm: "Node.Name n = kn" by auto
    from n dn have "map_of (Nodes g) kn = Some n" by simp
    moreover have "distinct (map fst (Connections n))" using dconn n by auto
    with pk have "map_of (Connections n) p = Some k" by simp
    ultimately show ?thesis by (simp add: np_eq nm)
  qed
  have backed: "\<exists>n'. map_of (Nodes g') (Node np) = Some n' \<and> map_of (Connections n') (Pin np) = Some k"
    if m: "(k, ch) \<in> set (Channels g')" and np: "np \<in> set (Channel.Pins ch)" for k ch np
  proof -
    from m have len: "2 \<le> length (Channel.Pins ch)" and mr: "(k, ch) \<in> set (rebuilt_caches g)"
      by (auto simp: cs')
    from wired_pin[OF mr np] obtain n where n: "map_of (Nodes g) (Node np) = Some n"
      and pk: "map_of (Connections n) (Pin np) = Some k" by blast
    have "np \<notin> set ?R"
    proof
      assume "np \<in> set ?R"
      then obtain d dch where d: "(d, dch) \<in> set (rebuilt_caches g)"
        and short: "length (Channel.Pins dch) < 2" and npd: "np \<in> set (Channel.Pins dch)"
        by (auto simp: doomed_pins_def doomed_def)
      from wired_pin[OF d npd] n pk have "d = k" by auto
      with d mr drb have "dch = ch" by (meson eq_key_imp_eq_value)
      with short len show False by simp
    qed
    then have "NodePin (Node np) (Pin np) \<notin> set ?R" by simp
    then have "map_of (Connections (disconnected (Node np) ?R n)) (Pin np) = Some k"
      using pk by (simp only: Connections_disconnected if_False)
    with n look show ?thesis by simp
  qed
  have "pins_backed g'"
    unfolding pins_backed_def list_all_iff
  proof (clarify)
    fix k ch np assume "(k, ch) \<in> set (Channels g')" "np \<in> set (Channel.Pins ch)"
    from backed[OF this]
    show "case map_of (Nodes g') (Node np) of None \<Rightarrow> False
          | Some n \<Rightarrow> map_of (Connections n) (Pin np) = Some k"
      by auto
  qed
  moreover have "sentinel_free g'"
  proof -
    have "''nil'' \<notin> fst ` set (Channels g)"
      using sf by (simp add: sentinel_free_def map_of_eq_None_iff)
    then have "''nil'' \<notin> fst ` set (rebuilt_caches g)"
      unfolding rb by force
    then have "''nil'' \<notin> fst ` set (Channels g')"
      unfolding cs' by auto
    then show ?thesis by (simp add: sentinel_free_def map_of_eq_None_iff)
  qed
  ultimately show ?thesis by simp
qed

lemma refine_pins_next:
  "refine_pins ops m conns pts nx0 = Inr (pts', nx) \<Longrightarrow>
   map fst pts' = map fst pts \<and>
   (\<forall>(pn, t) \<in> set pts. \<exists>t' b. Refine ops t m = Inr (t', b) \<and> (pn, t') \<in> set pts') \<and>
   set nx \<subseteq> set nx0 \<union> {ch \<in> snd ` set conns. ch \<noteq> '''' \<and> ch \<noteq> ''nil''}"
proof (induction pts arbitrary: nx0 pts')
  case Nil
  then show ?case by simp
next
  case (Cons a pts)
  obtain pn pt where a: "a = (pn, pt)" by (cases a)
  from Cons.prems a obtain pt' changed where rf: "Refine ops pt m = Inr (pt', changed)"
    by (auto split: sum.splits)
  let ?ch = "case map_of conns pn of None \<Rightarrow> '''' | Some ch \<Rightarrow> ch"
  let ?nx1 = "if \<not> changed then nx0 else if ?ch = '''' \<or> ?ch = ''nil'' then nx0 else List.insert ?ch nx0"
  from Cons.prems a rf obtain rest where rest: "refine_pins ops m conns pts ?nx1 = Inr (rest, nx)"
    and pts': "pts' = (pn, pt') # rest"
    by (auto simp: Let_def split: sum.splits)
  from Cons.IH[OF rest] have
    k: "map fst rest = map fst pts"
    and all: "\<forall>(pn, t) \<in> set pts. \<exists>t' b. Refine ops t m = Inr (t', b) \<and> (pn, t') \<in> set rest"
    and sub: "set nx \<subseteq> set ?nx1 \<union> {ch \<in> snd ` set conns. ch \<noteq> '''' \<and> ch \<noteq> ''nil''}"
    by auto
  have "?ch = '''' \<or> ?ch \<in> snd ` set conns"
    by (cases "map_of conns pn") (auto dest!: map_of_SomeD intro: rev_image_eqI)
  then have s1: "set ?nx1 \<subseteq> set nx0 \<union> {ch \<in> snd ` set conns. ch \<noteq> '''' \<and> ch \<noteq> ''nil''}"
    by auto
  from sub s1 have "set nx \<subseteq> set nx0 \<union> {ch \<in> snd ` set conns. ch \<noteq> '''' \<and> ch \<noteq> ''nil''}"
    by blast
  moreover have "\<forall>(pn, t) \<in> set (a # pts). \<exists>t' b. Refine ops t m = Inr (t', b) \<and> (pn, t') \<in> set pts'"
    using all rf by (auto simp: a pts')
  ultimately show ?case using k by (simp add: a pts')
qed





section \<open>Termination lemmas\<close>







lemma refined_refl [simp]: "refined G ns ns"
  by (simp add: refined_def)







































section \<open>Lemmas on pins outside the inference\<close>

lemma map_of_hide:
  "map_of (hide x ns) k = map_option (\<lambda>n. if k = Node x then drop_pin (Pin x) n else n) (map_of ns k)"
  by (induction ns) (auto simp: hide_def)

lemma update_hide:
  "AList.update k (if k = Node x then drop_pin (Pin x) n else n) (hide x ns) =
   hide x (AList.update k n ns)"
  by (induction ns) (auto simp: hide_def)

lemma map_of_filter_other:
  "p \<noteq> pn \<Longrightarrow> map_of (filter (\<lambda>(q, t). q \<noteq> pn) pts) p = map_of pts p"
  by (induction pts) auto

lemma update_filter_other:
  "p \<noteq> pn \<Longrightarrow> AList.update p t (filter (\<lambda>(q, t). q \<noteq> pn) pts) =
     filter (\<lambda>(q, t). q \<noteq> pn) (AList.update p t pts)"
  by (induction pts) auto

lemma drop_pin_fields [simp]:
  "Connections (drop_pin pn n) = Connections n"
  "Node.Name (drop_pin pn n) = Node.Name n"
  "typeParams (drop_pin pn n) = typeParams n"
  "pinTypes (drop_pin pn n) = filter (\<lambda>(p, t). p \<noteq> pn) (pinTypes n)"
  "PartPins (drop_pin pn n) = filter (\<lambda>(p, d). p \<noteq> pn) (PartPins n)"
  by (simp_all add: drop_pin_def)

lemma type_at_hide: "y \<noteq> x \<Longrightarrow> type_at (hide x ns) y = type_at ns y"
proof (cases "map_of ns (Node y)")
  case None
  then show ?thesis by (simp add: type_at_def map_of_hide)
next
  case (Some n)
  assume ne: "y \<noteq> x"
  show ?thesis
  proof (cases "Node y = Node x")
    case False
    with Some show ?thesis by (simp add: type_at_def map_of_hide)
  next
    case True
    with ne have "Pin y \<noteq> Pin x" by (cases x; cases y) auto
    with Some True show ?thesis by (simp add: type_at_def map_of_hide map_of_filter_other)
  qed
qed

lemma set_type_at_hide:
  assumes "r \<noteq> x"
  shows "set_type_at r t (hide x ns) = hide x (set_type_at r t ns)"
proof (cases "map_of ns (Node r)")
  case None
  then show ?thesis by (simp add: set_type_at_def map_of_hide)
next
  case (Some n)
  show ?thesis
  proof (cases "Node r = Node x")
    case False
    with Some update_hide[of "Node r" x "n\<lparr>pinTypes := AList.update (Pin r) t (pinTypes n)\<rparr>" ns]
    show ?thesis by (simp add: set_type_at_def map_of_hide)
  next
    case True
    with assms have ne: "Pin r \<noteq> Pin x" by (cases x; cases r) auto
    have "drop_pin (Pin x) (n\<lparr>pinTypes := AList.update (Pin r) t (pinTypes n)\<rparr>) =
          (drop_pin (Pin x) n)\<lparr>pinTypes := AList.update (Pin r) t (pinTypes (drop_pin (Pin x) n))\<rparr>"
      by (simp add: drop_pin_def update_filter_other[OF ne])
    with Some True update_hide[of "Node r" x "n\<lparr>pinTypes := AList.update (Pin r) t (pinTypes n)\<rparr>" ns]
    show ?thesis by (simp add: set_type_at_def map_of_hide)
  qed
qed

lemma refine_pins_hide:
  assumes s: "map_of conns pn = Some ''nil''"
  shows "refine_pins ops m conns pts nx0 = Inr (pts', nx) \<Longrightarrow>
   refine_pins ops m conns (filter (\<lambda>(p, t). p \<noteq> pn) pts) nx0 =
     Inr (filter (\<lambda>(p, t). p \<noteq> pn) pts', nx)"
proof (induction pts arbitrary: nx0 pts')
  case Nil
  then show ?case by simp
next
  case (Cons a pts)
  obtain p pt where a: "a = (p, pt)" by (cases a)
  from Cons.prems a obtain pt' changed where rf: "Refine ops pt m = Inr (pt', changed)"
    by (auto split: sum.splits)
  let ?ch = "case map_of conns p of None \<Rightarrow> [] | Some ch \<Rightarrow> ch"
  let ?nx1 = "if \<not> changed then nx0 else if ?ch = [] \<or> ?ch = ''nil'' then nx0 else List.insert ?ch nx0"
  from Cons.prems a rf obtain rest where rest: "refine_pins ops m conns pts ?nx1 = Inr (rest, nx)"
    and pts': "pts' = (p, pt') # rest"
    by (auto simp: Let_def split: sum.splits)
  note ih = Cons.IH[OF rest]
  show ?case
  proof (cases "p = pn")
    case True
    with s have "?nx1 = nx0" by simp
    with ih True show ?thesis by (simp add: a pts')
  next
    case False
    with ih rf show ?thesis by (simp add: a pts' Let_def)
  qed
qed

lemma applyTypeParams_hide:
  assumes ap: "applyTypeParams ops n m = Inr (n', nx)"
    and s: "k = Node x \<longrightarrow> map_of (Connections n) (Pin x) = Some ''nil''"
  shows "applyTypeParams ops (if k = Node x then drop_pin (Pin x) n else n) m =
         Inr (if k = Node x then drop_pin (Pin x) n' else n', nx)"
proof (cases "k = Node x")
  case False
  with ap show ?thesis by simp
next
  case True
  from ap obtain pts where r: "refine_pins ops m (Connections n) (pinTypes n) [] = Inr (pts, nx)"
    and n': "n' = n\<lparr>pinTypes := pts\<rparr>"
    by (auto simp: applyTypeParams_def split: sum.splits)
  from s True have "map_of (Connections n) (Pin x) = Some ''nil''" by simp
  from refine_pins_hide[OF this r] True n' show ?thesis
    by (simp add: applyTypeParams_def drop_pin_def)
qed

lemma set_type_at_connections:
  "map_option Connections (map_of (set_type_at r t ns) k) = map_option Connections (map_of ns k)"
  by (cases "map_of ns (Node r)") (auto simp: set_type_at_def update_conv')

lemma set_update_subset: "set (AList.update k v xs) \<subseteq> insert (k, v) (set xs)"
  by (induction xs) auto

lemma without_pin_fields [simp]:
  "Nodes (without_pin x g) = hide x (Nodes g)" "Channels (without_pin x g) = Channels g"
  "types (without_pin x g) = types g"
  "without_pin x (g\<lparr>Channels := cs\<rparr>) = (without_pin x g)\<lparr>Channels := cs\<rparr>"
  "without_pin x (g\<lparr>Nodes := ns, types := m\<rparr>) = (without_pin x g)\<lparr>Nodes := hide x ns, types := m\<rparr>"
  "without_pin x (g\<lparr>Nodes := ns\<rparr>) = (without_pin x g)\<lparr>Nodes := hide x ns\<rparr>"
  by (simp_all add: without_pin_def)

lemma unconnected_cong:
  "map_option Connections (map_of (Nodes g') (Node x)) = map_option Connections (map_of (Nodes g) (Node x))
   \<Longrightarrow> unconnected x g \<Longrightarrow> unconnected x g'"
  by (cases "map_of (Nodes g) (Node x)"; cases "map_of (Nodes g') (Node x)")
     (auto simp: unconnected_def)

lemma infer_pin_hide:
  assumes ok: "hidden_ok x g" and np: "np \<noteq> x"
    and step: "infer_pin ops ck np g nx = Inr (g', nx')"
  shows "infer_pin ops ck np (without_pin x g) nx = Inr (without_pin x g', nx') \<and> hidden_ok x g'"
proof -
  let ?dn = "\<lambda>k n. if k = Node x then drop_pin (Pin x) n else n"
  from step obtain n c where n: "map_of (Nodes g) (Node np) = Some n"
    and c: "map_of (Channels g) ck = Some c"
    by (auto simp: infer_pin_def split: option.splits)
  from ok have unc: "unconnected x g"
    and chs: "\<forall>(k, c) \<in> set (Channels g). x \<notin> set (Channel.Pins c) \<and> Channel.Type c \<noteq> Some x"
    by (auto simp: hidden_ok_def)
  from c have "(ck, c) \<in> set (Channels g)" by (rule map_of_SomeD)
  with chs have cx: "x \<notin> set (Channel.Pins c)" and tx: "Channel.Type c \<noteq> Some x" by auto
  have hn: "map_of (hide x (Nodes g)) (Node np) = Some (?dn (Node np) n)"
    using n by (simp add: map_of_hide)
  have pt_same: "map_of (pinTypes (?dn (Node np) n)) (Pin np) = map_of (pinTypes n) (Pin np)"
  proof (cases "Node np = Node x")
    case False
    then show ?thesis by simp
  next
    case True
    with np have "Pin np \<noteq> Pin x" by (cases x; cases np) auto
    with True show ?thesis by (simp add: map_of_filter_other)
  qed
  show ?thesis
  proof (cases "Channel.Type c")
    case None
    let ?c' = "c\<lparr>Channel.Type := (case map_of (pinTypes n) (Pin np) of
                                            None \<Rightarrow> None | Some pt \<Rightarrow> Some np)\<rparr>"
    from step n c None have g': "g' = g\<lparr>Channels := AList.update ck ?c' (Channels g)\<rparr>"
      and nx': "nx' = List.insert ck nx"
      by (simp_all add: infer_pin_def)
    have 1: "infer_pin ops ck np (without_pin x g) nx = Inr (without_pin x g', nx')"
      using hn c None pt_same by (simp add: infer_pin_def g' nx')
    have "Channel.Type ?c' \<noteq> Some x" using np by (auto split: option.splits)
    with cx chs set_update_subset[of ck ?c' "Channels g"]
    have "\<forall>(k, c) \<in> set (Channels g'). x \<notin> set (Channel.Pins c) \<and> Channel.Type c \<noteq> Some x"
      unfolding g' by fastforce
    moreover have "unconnected x g'" using unc by (simp add: unconnected_def g')
    ultimately show ?thesis using 1 by (simp add: hidden_ok_def)
  next
    case (Some r)
    with tx have rx: "r \<noteq> x" by auto
    from step n c Some obtain ct ptype where ct: "type_at (Nodes g) r = Some ct"
      and pt: "map_of (pinTypes n) (Pin np) = Some ptype"
      by (auto simp: infer_pin_def split: option.splits)
    let ?m' = "fst (Infer ops (types g) ct ptype)"
    from step n c Some ct pt obtain ct' b0 where rf: "Refine ops ct ?m' = Inr (ct', b0)"
      by (auto simp: infer_pin_def Let_def split: sum.splits)
    let ?ns1 = "set_type_at r ct' (Nodes g)"
    from step n c Some ct pt rf obtain n1 where n1: "map_of ?ns1 (Node np) = Some n1"
      by (auto simp: infer_pin_def Let_def split: option.splits)
    from step n c Some ct pt rf n1 obtain n2 nxcn where
      ap: "applyTypeParams ops n1 ?m' = Inr (n2, nxcn)"
      by (auto simp: infer_pin_def Let_def split: sum.splits)
    let ?ns2 = "AList.update (Node np) n2 ?ns1"
    from step n c Some ct pt rf n1 ap have g': "g' = g\<lparr>Nodes := ?ns2, types := ?m'\<rparr>"
      and nx': "nx' = fold List.insert nxcn nx"
      by (simp_all add: infer_pin_def Let_def)
    have hct: "type_at (hide x (Nodes g)) r = Some ct"
      using ct by (simp add: type_at_hide[OF rx])
    have hns1: "set_type_at r ct' (hide x (Nodes g)) = hide x ?ns1"
      by (rule set_type_at_hide[OF rx])
    have hn1: "map_of (hide x ?ns1) (Node np) = Some (?dn (Node np) n1)"
      using n1 by (simp add: map_of_hide)
    have conn1: "map_option Connections (map_of ?ns1 k) = map_option Connections (map_of (Nodes g) k)" for k
      by (rule set_type_at_connections)
    have s: "Node np = Node x \<longrightarrow> map_of (Connections n1) (Pin x) = Some ''nil''"
    proof
      assume e: "Node np = Node x"
      from conn1[of "Node np"] n1 n have "Connections n1 = Connections n" by simp
      moreover from unc n e have "map_of (Connections n) (Pin x) = Some ''nil''"
        by (simp add: unconnected_def)
      ultimately show "map_of (Connections n1) (Pin x) = Some ''nil''" by simp
    qed
    have hap: "applyTypeParams ops (?dn (Node np) n1) ?m' = Inr (?dn (Node np) n2, nxcn)"
      by (rule applyTypeParams_hide[OF ap s])
    have hns2: "AList.update (Node np) (?dn (Node np) n2) (hide x ?ns1) = hide x ?ns2"
      by (rule update_hide)
    have 1: "infer_pin ops ck np (without_pin x g) nx = Inr (without_pin x g', nx')"
      using hn c Some hct pt pt_same rf hns1 hn1 hap hns2
      by (simp add: infer_pin_def Let_def g' nx' del: drop_pin_fields)
    from ap have cn2: "Connections n2 = Connections n1"
      by (auto simp: applyTypeParams_def split: sum.splits)
    have "map_option Connections (map_of ?ns2 k) = map_option Connections (map_of (Nodes g) k)" for k
      using conn1[of k] n1 cn2 by (auto simp: update_conv')
    then have "unconnected x g'"
      using unc by (intro unconnected_cong[of g' x g]) (simp_all add: g')
    with chs 1 show ?thesis by (simp add: hidden_ok_def g')
  qed
qed

lemma infer_pins_hide:
  "hidden_ok x g \<Longrightarrow> x \<notin> set nps \<Longrightarrow> infer_pins ops ck nps g nx = Inr (g', nx') \<Longrightarrow>
   infer_pins ops ck nps (without_pin x g) nx = Inr (without_pin x g', nx') \<and> hidden_ok x g'"
proof (induction nps arbitrary: g nx)
  case Nil
  then show ?case by simp
next
  case (Cons np nps)
  from Cons.prems(3) obtain g1 nx1 where s1: "infer_pin ops ck np g nx = Inr (g1, nx1)"
    and rest: "infer_pins ops ck nps g1 nx1 = Inr (g', nx')"
    by (auto split: sum.splits)
  from Cons.prems(2) have np: "np \<noteq> x" and nps: "x \<notin> set nps" by auto
  from infer_pin_hide[OF Cons.prems(1) np s1] have
    h1: "infer_pin ops ck np (without_pin x g) nx = Inr (without_pin x g1, nx1)"
    and ok1: "hidden_ok x g1" by auto
  from Cons.IH[OF ok1 nps rest] h1 show ?case by simp
qed

lemma inferChannelType_hide:
  assumes ok: "hidden_ok x g" and step: "inferChannelType ops g ck = Inr (g', nx)"
  shows "inferChannelType ops (without_pin x g) ck = Inr (without_pin x g', nx) \<and> hidden_ok x g'"
proof -
  from step obtain c where c: "map_of (Channels g) ck = Some c"
    and r: "infer_pins ops ck (Channel.Pins c) g [] = Inr (g', nx)"
    by (auto simp: inferChannelType_def split: option.splits)
  from c have "(ck, c) \<in> set (Channels g)" by (rule map_of_SomeD)
  with ok have "x \<notin> set (Channel.Pins c)" by (auto simp: hidden_ok_def)
  from infer_pins_hide[OF ok this r] c show ?thesis by (simp add: inferChannelType_def)
qed

lemma flood_hide:
  "hidden_ok x g \<Longrightarrow> flood ops fuel q g = Some (Inr r) \<Longrightarrow>
   flood ops fuel q (without_pin x g) = Some (Inr (without_pin x r)) \<and> hidden_ok x r"
proof (induction ops fuel q g rule: flood.induct)
  case (1 ops fuel g)
  then show ?case by simp
next
  case (2 ops c q g)
  then show ?case by simp
next
  case (3 ops fuel c q g)
  from "3.prems"(2) obtain g' nx where st: "inferChannelType ops g c = Inr (g', nx)"
    and rest: "flood ops fuel (q @ nx) g' = Some (Inr r)"
    by (auto split: sum.splits)
  from inferChannelType_hide[OF "3.prems"(1) st] have
    h: "inferChannelType ops (without_pin x g) c = Inr (without_pin x g', nx)"
    and ok': "hidden_ok x g'" by auto
  from "3.IH"[OF st refl ok' rest] h show ?case by simp
qed

lemma lithify_channels_hide:
  "lithify_channels ops cs ns = Inr ns' \<Longrightarrow> \<forall>(k, c) \<in> set cs. Channel.Type c \<noteq> Some x \<Longrightarrow>
   lithify_channels ops cs (hide x ns) = Inr (hide x ns')"
proof (induction cs arbitrary: ns)
  case Nil
  then show ?case by simp
next
  case (Cons a cs)
  obtain k c where a: "a = (k, c)" by (cases a)
  from Cons.prems(1) a obtain r t where r: "Channel.Type c = Some r" and t: "type_at ns r = Some t"
    and rest: "lithify_channels ops cs (set_type_at r (Lithify ops t (typeEmptyInterface ops)) ns) = Inr ns'"
    by (auto split: option.splits)
  from Cons.prems(2) a r have rx: "r \<noteq> x" by auto
  from Cons.prems(2) have "\<forall>(k, c) \<in> set cs. Channel.Type c \<noteq> Some x" by simp
  from Cons.IH[OF rest this] r t show ?case
    by (simp add: a type_at_hide[OF rx] set_type_at_hide[OF rx])
qed

lemma lithify_nodes_hide: "lithify_nodes ops (hide x ns) = hide x (lithify_nodes ops ns)"
proof -
  have mf: "map (\<lambda>(pn, pt). (pn, f pt)) (filter (\<lambda>(p, t). p \<noteq> q) pts) =
        filter (\<lambda>(p, t). p \<noteq> q) (map (\<lambda>(pn, pt). (pn, f pt)) pts)" for f q
    and pts :: "(string \<times> 'a) list"
    by (induction pts) auto
  show ?thesis
    by (induction ns) (auto simp: lithify_nodes_def hide_def drop_pin_def mf)
qed

lemma publish_types_hide:
  "publish_types ops m ns = Inr ns' \<Longrightarrow> publish_types ops m (hide x ns) = Inr (hide x ns')"
proof (induction m arbitrary: ns)
  case Nil
  then show ?case by simp
next
  case (Cons a m)
  obtain tp ty where a: "a = (tp, ty)" by (cases a)
  from Cons.prems a obtain n where n: "map_of ns (Scope tp) = Some n"
    and rest: "publish_types ops m
            (AList.update (Scope tp)
               (n\<lparr>typeParams := AList.update (Ident tp) (String ops ty) (typeParams n)\<rparr>) ns) = Inr ns'"
    by (auto split: option.splits)
  let ?n' = "n\<lparr>typeParams := AList.update (Ident tp) (String ops ty) (typeParams n)\<rparr>"
  have "(if Scope tp = Node x then drop_pin (Pin x) ?n' else ?n') =
        (if Scope tp = Node x then drop_pin (Pin x) n else n)
          \<lparr>typeParams := AList.update (Ident tp) (String ops ty)
             (typeParams (if Scope tp = Node x then drop_pin (Pin x) n else n))\<rparr>"
    by (simp add: drop_pin_def)
  with update_hide[of "Scope tp" x ?n' ns] Cons.IH[OF rest] n show ?case
    by (simp add: a map_of_hide)
qed

lemma instantiate_pins_hide:
  "instantiate_pins ops nm pins = Inr pts \<Longrightarrow>
   instantiate_pins ops nm (filter (\<lambda>(p, d). p \<noteq> pn) pins) = Inr (filter (\<lambda>(p, t). p \<noteq> pn) pts)"
proof (induction pins arbitrary: pts)
  case Nil
  then show ?case by simp
next
  case (Cons a pins)
  obtain p d where a: "a = (p, d)" by (cases a)
  from Cons.prems a obtain pt rest where nt: "NewType ops nm d = Inr pt"
    and rest: "instantiate_pins ops nm pins = Inr rest" and pts: "pts = (p, pt) # rest"
    by (auto split: sum.splits)
  from Cons.IH[OF rest] nt show ?case by (simp add: a pts)
qed

lemma instantiate_nodes_hide:
  "instantiate_nodes ops ns = Inr ns' \<Longrightarrow> instantiate_nodes ops (hide x ns) = Inr (hide x ns')"
proof (induction ns arbitrary: ns')
  case Nil
  then show ?case by (simp add: hide_def)
next
  case (Cons a ns)
  obtain k n where a: "a = (k, n)" by (cases a)
  from Cons.prems a obtain pts rest where
    pts: "instantiate_pins ops (Node.Name n) (PartPins n) = Inr pts"
    and rest: "instantiate_nodes ops ns = Inr rest"
    and ns': "ns' = (k, n\<lparr>pinTypes := pts\<rparr>) # rest"
    by (auto split: sum.splits)
  from Cons.IH[OF rest] have ih: "instantiate_nodes ops (hide x ns) = Inr (hide x rest)" .
  have h: "hide x (a # ns) = (k, if k = Node x then drop_pin (Pin x) n else n) # hide x ns"
    by (simp add: hide_def a)
  have h': "hide x ns' = (k, if k = Node x then drop_pin (Pin x) (n\<lparr>pinTypes := pts\<rparr>)
                            else n\<lparr>pinTypes := pts\<rparr>) # hide x rest"
    by (simp add: hide_def ns')
  show ?case
  proof (cases "k = Node x")
    case False
    with pts ih show ?thesis unfolding h h' by simp
  next
    case True
    from instantiate_pins_hide[OF pts, of "Pin x"] ih True show ?thesis
      unfolding h h' by (simp add: drop_pin_def)
  qed
qed

lemma instantiate_nodes_connections:
  "instantiate_nodes ops ns = Inr ns' \<Longrightarrow>
   map_option Connections (map_of ns' k) = map_option Connections (map_of ns k)"
proof (induction ns arbitrary: ns')
  case Nil
  then show ?case by simp
next
  case (Cons a ns)
  obtain k0 n where a: "a = (k0, n)" by (cases a)
  from Cons.prems a obtain pts rest where
    rest: "instantiate_nodes ops ns = Inr rest"
    and ns': "ns' = (k0, n\<lparr>pinTypes := pts\<rparr>) # rest"
    by (auto split: sum.splits)
  from Cons.IH[OF rest] show ?case by (simp add: a ns')
qed

lemma InferTypes_hide:
  assumes un: "unconnected x g" and uc: "uncached x g"
    and ok: "InferTypes ops fuel g = Some (Inr r)"
  shows "InferTypes ops fuel (without_pin x g) = Some (Inr (without_pin x r))"
proof -
  let ?cs = "map (\<lambda>(k, c). (k, c\<lparr>Channel.Type := None\<rparr>)) (Channels g)"
  from ok obtain ns0 g1 ns1 ns2 where
    inst: "instantiate_nodes ops (Nodes g) = Inr ns0"
    and fl: "flood ops fuel (map fst (Channels g)) (g\<lparr>Nodes := ns0, Channels := ?cs, types := []\<rparr>)
             = Some (Inr g1)"
    and lc: "lithify_channels ops (Channels g1) (Nodes g1) = Inr ns1"
    and pub: "publish_types ops (types g1) (lithify_nodes ops ns1) = Inr ns2"
    and r: "r = g1\<lparr>Nodes := ns2\<rparr>"
    by (auto simp: InferTypes_def split: sum.splits option.splits)
  let ?g0 = "g\<lparr>Nodes := ns0, Channels := ?cs, types := []\<rparr>"
  have "unconnected x ?g0"
    using un instantiate_nodes_connections[OF inst, of "Node x"]
    by (intro unconnected_cong[of ?g0 x g]) simp_all
  moreover have "\<forall>(k, c) \<in> set (Channels ?g0). x \<notin> set (Channel.Pins c) \<and> Channel.Type c \<noteq> Some x"
    using uc by (auto simp: uncached_def list_all_iff)
  ultimately have ok0: "hidden_ok x ?g0" by (simp add: hidden_ok_def)
  from flood_hide[OF ok0 fl] have
    hfl: "flood ops fuel (map fst (Channels g)) (without_pin x ?g0) = Some (Inr (without_pin x g1))"
    and ok1: "hidden_ok x g1" by auto
  have start: "without_pin x ?g0 = (without_pin x g)\<lparr>Nodes := hide x ns0, Channels := ?cs, types := []\<rparr>"
    by (simp add: without_pin_def)
  from ok1 have "\<forall>(k, c) \<in> set (Channels g1). Channel.Type c \<noteq> Some x"
    by (auto simp: hidden_ok_def)
  from lithify_channels_hide[OF lc this] have
    hlc: "lithify_channels ops (Channels g1) (hide x (Nodes g1)) = Inr (hide x ns1)" .
  from publish_types_hide[OF pub, of x] have
    hpub: "publish_types ops (types g1) (lithify_nodes ops (hide x ns1)) = Inr (hide x ns2)"
    by (simp add: lithify_nodes_hide)
  from instantiate_nodes_hide[OF inst, of x] hfl hlc hpub show ?thesis
    by (simp add: InferTypes_def start r)
qed

lemma InferTypes_lithified:
  assumes ok: "InferTypes ops fuel g = Some (Inr r)" and t: "type_at (Nodes r) y = Some t"
  shows "\<exists>t0. t = Lithify ops t0 (typeEmptyInterface ops)"
proof -
  from ok obtain g1 ns1 ns2 where
    pub: "publish_types ops (types g1) (lithify_nodes ops ns1) = Inr ns2"
    and r: "r = g1\<lparr>Nodes := ns2\<rparr>"
    by (auto simp: InferTypes_def split: sum.splits option.splits)
  from t r have "type_at ns2 y = Some t" by simp
  with type_at_publish_types[OF pub, of y] have "type_at (lithify_nodes ops ns1) y = Some t" by simp
  then show ?thesis by (auto simp: type_at_lithify_nodes)
qed

lemma unconnected_uncached:
  assumes pb: "pins_backed g" and un: "unconnected x g" and sf: "sentinel_free g"
  shows "uncached x g"
  unfolding uncached_def list_all_iff
proof (intro ballI)
  fix kc assume m: "kc \<in> set (Channels g)"
  obtain k c where kc: "kc = (k, c)" by (cases kc)
  have "x \<notin> set (Channel.Pins c)"
  proof
    assume "x \<in> set (Channel.Pins c)"
    with pb m kc obtain n where n: "map_of (Nodes g) (Node x) = Some n"
      "map_of (Connections n) (Pin x) = Some k"
      by (fastforce simp: pins_backed_def list_all_iff split: option.splits)
    with un have "k = ''nil''" by (simp add: unconnected_def)
    moreover from m kc have "k \<in> fst ` set (Channels g)" by force
    moreover from sf have "''nil'' \<notin> fst ` set (Channels g)"
      by (simp add: sentinel_free_def map_of_eq_None_iff)
    ultimately show False by simp
  qed
  then show "case kc of (k, c) \<Rightarrow> x \<notin> set (Channel.Pins c)" by (simp add: kc)
qed

section \<open>Claims\<close>

text \<open>
  Claim C9. When every pin in the channel's cache names a node of the registry,
  \<open>DeleteChannel\<close> returns, the channel's name is gone from the registry, the node
  keys are the same, and a connection entry reads \<open>"nil"\<close> exactly where its (node, pin)
  was in the cache and is unchanged elsewhere. When some cached pin names a node that is
  not in the registry, \<open>DeleteChannel\<close> panics with "node ... should exist".
\<close>

theorem DeleteChannel_resets_then_removes:
  "(list_all (\<lambda>np. map_of (Nodes g) (Node np) \<noteq> None) (Channel.Pins ch) \<longrightarrow>
      (\<exists>g'. DeleteChannel g ch = Inr g' \<and>
            Channels g' = AList.delete (Channel.Name ch) (Channels g) \<and>
            map_of (Channels g') (Channel.Name ch) = None \<and>
            map fst (Nodes g') = map fst (Nodes g) \<and>
            (\<forall>k n. map_of (Nodes g) k = Some n \<longrightarrow>
               (\<exists>n'. map_of (Nodes g') k = Some n' \<and>
                  (\<forall>p. map_of (Connections n') p =
                     (if NodePin k p \<in> set (Channel.Pins ch) then Some ''nil''
                      else map_of (Connections n) p)))))) \<and>
   (\<not> list_all (\<lambda>np. map_of (Nodes g) (Node np) \<noteq> None) (Channel.Pins ch) \<longrightarrow>
      (\<exists>np \<in> set (Channel.Pins ch). map_of (Nodes g) (Node np) = None \<and>
         DeleteChannel g ch = Inl (Panic (''node '' @ Node np @ '' should exist''))))"
proof (intro conjI impI)
  assume "list_all (\<lambda>np. map_of (Nodes g) (Node np) \<noteq> None) (Channel.Pins ch)"
  then have "\<forall>np \<in> set (Channel.Pins ch). map_of (Nodes g) (Node np) \<noteq> None"
    by (simp add: list_all_iff)
  from DeleteChannel_ok[OF this] obtain g' where
    g': "DeleteChannel g ch = Inr g'" "Channels g' = AList.delete (Channel.Name ch) (Channels g)"
      "map fst (Nodes g') = map fst (Nodes g)"
      "\<forall>k. map_of (Nodes g') k = map_option (disconnected k (Channel.Pins ch)) (map_of (Nodes g) k)"
    by blast
  have "map_of (Channels g') (Channel.Name ch) = None"
    by (simp add: g'(2) delete_conv')
  moreover have "\<forall>k n. map_of (Nodes g) k = Some n \<longrightarrow>
               (\<exists>n'. map_of (Nodes g') k = Some n' \<and>
                  (\<forall>p. map_of (Connections n') p =
                     (if NodePin k p \<in> set (Channel.Pins ch) then Some ''nil''
                      else map_of (Connections n) p)))"
    using g'(4) by (simp add: Connections_disconnected)
  ultimately show "\<exists>g'. DeleteChannel g ch = Inr g' \<and>
            Channels g' = AList.delete (Channel.Name ch) (Channels g) \<and>
            map_of (Channels g') (Channel.Name ch) = None \<and>
            map fst (Nodes g') = map fst (Nodes g) \<and>
            (\<forall>k n. map_of (Nodes g) k = Some n \<longrightarrow>
               (\<exists>n'. map_of (Nodes g') k = Some n' \<and>
                  (\<forall>p. map_of (Connections n') p =
                     (if NodePin k p \<in> set (Channel.Pins ch) then Some ''nil''
                      else map_of (Connections n) p))))"
    using g'(1,2,3) by blast
next
  assume "\<not> list_all (\<lambda>np. map_of (Nodes g) (Node np) \<noteq> None) (Channel.Pins ch)"
  from disconnect_pins_panic[OF this]
  show "\<exists>np \<in> set (Channel.Pins ch). map_of (Nodes g) (Node np) = None \<and>
         DeleteChannel g ch = Inl (Panic (''node '' @ Node np @ '' should exist''))"
    by (auto simp: DeleteChannel_def)
qed

theorem DeleteChannel_witness:
  "list_all (\<lambda>np. map_of (Nodes (ex_graph
        [(''X'', ex_node ''X'' [(''out'', ''int'')] [(''out'', ''c'')]),
         (''Y'', ex_node ''Y'' [(''in'', ''int'')] [(''in'', ''c'')])]
        [(''c'', ex_chan ''c'' [NodePin ''X'' ''out'', NodePin ''Y'' ''in''])])) (Node np) \<noteq> None)
     [NodePin ''X'' ''out'', NodePin ''Y'' ''in''] \<and>
   DeleteChannel (ex_graph
        [(''X'', ex_node ''X'' [(''out'', ''int'')] [(''out'', ''c'')]),
         (''Y'', ex_node ''Y'' [(''in'', ''int'')] [(''in'', ''c'')])]
        [(''c'', ex_chan ''c'' [NodePin ''X'' ''out'', NodePin ''Y'' ''in''])])
     (ex_chan ''c'' [NodePin ''X'' ''out'', NodePin ''Y'' ''in''])
   = Inr (ex_graph
        [(''X'', ex_node ''X'' [(''out'', ''int'')] [(''out'', ''nil'')]),
         (''Y'', ex_node ''Y'' [(''in'', ''int'')] [(''in'', ''nil'')])] []) \<and>
   \<not> list_all (\<lambda>np. map_of (Nodes (ex_graph
        [(''X'', ex_node ''X'' [(''out'', ''int'')] [(''out'', ''c'')])]
        [(''c'', ex_chan ''c'' [NodePin ''X'' ''out'', NodePin ''Y'' ''in''])])) (Node np) \<noteq> None)
     [NodePin ''X'' ''out'', NodePin ''Y'' ''in''] \<and>
   DeleteChannel (ex_graph
        [(''X'', ex_node ''X'' [(''out'', ''int'')] [(''out'', ''c'')])]
        [(''c'', ex_chan ''c'' [NodePin ''X'' ''out'', NodePin ''Y'' ''in''])])
     (ex_chan ''c'' [NodePin ''X'' ''out'', NodePin ''Y'' ''in''])
   = Inl (Panic ''node Y should exist'')"
  using DeleteChannel_resets_then_removes[of
      "ex_graph
        [(''X'', ex_node ''X'' [(''out'', ''int'')] [(''out'', ''c'')]),
         (''Y'', ex_node ''Y'' [(''in'', ''int'')] [(''in'', ''c'')])]
        [(''c'', ex_chan ''c'' [NodePin ''X'' ''out'', NodePin ''Y'' ''in''])]"
      "ex_chan ''c'' [NodePin ''X'' ''out'', NodePin ''Y'' ''in'']"]
    DeleteChannel_resets_then_removes[of
      "ex_graph
        [(''X'', ex_node ''X'' [(''out'', ''int'')] [(''out'', ''c'')])]
        [(''c'', ex_chan ''c'' [NodePin ''X'' ''out'', NodePin ''Y'' ''in''])]"
      "ex_chan ''c'' [NodePin ''X'' ''out'', NodePin ''Y'' ''in'']"]
  by (simp add: ex_graph_def ex_node_def ex_chan_def DeleteChannel_def)

text \<open>
  Claim C3. On a graph whose objects cache their registry keys as names,
  \<open>RefreshChannelsPins\<close> returns; the registry it leaves is the rebuilt registry
  without the channels whose rebuilt cache has fewer than two pins, so every channel
  still present has at least two (distinct) pins: the pins whose connection entries
  name it.
\<close>

theorem RefreshChannelsPins_prunes:
  assumes "names_cached g" and "distinct (map fst (Channels g))"
  shows "\<exists>g'. RefreshChannelsPins g = Inr g' \<and>
           Channels g' = filter (\<lambda>(k, ch). 2 \<le> length (Channel.Pins ch)) (rebuilt_caches g) \<and>
           (\<forall>(k, ch) \<in> set (Channels g').
              2 \<le> length (Channel.Pins ch) \<and> distinct (Channel.Pins ch) \<and>
              set (Channel.Pins ch) =
                {NodePin kn p |kn n p. (kn, n) \<in> set (Nodes g) \<and> (p, k) \<in> set (Connections n)})"
proof -
  from RefreshChannelsPins_result[OF assms] obtain g' where
    g': "RefreshChannelsPins g = Inr g'"
      "Channels g' = filter (\<lambda>(k, ch). 2 \<le> length (Channel.Pins ch)) (rebuilt_caches g)"
    by blast
  have named: "\<forall>(kn, n) \<in> set (Nodes g). Node.Name n = kn"
    using assms(1) by (simp add: names_cached_def list_all_iff)
  have "2 \<le> length (Channel.Pins ch) \<and> distinct (Channel.Pins ch) \<and>
        set (Channel.Pins ch) =
          {NodePin kn p |kn n p. (kn, n) \<in> set (Nodes g) \<and> (p, k) \<in> set (Connections n)}"
    if "(k, ch) \<in> set (Channels g')" for k ch
  proof -
    from that have len: "2 \<le> length (Channel.Pins ch)" and m: "(k, ch) \<in> set (rebuilt_caches g)"
      by (auto simp: g'(2))
    from m obtain c0 where ch: "ch = wired k (Nodes g) (c0\<lparr>Channel.Pins := []\<rparr>)"
      unfolding rebuilt_caches_map[OF assms(2)] by auto
    have "distinct (Channel.Pins ch)" unfolding ch by (rule distinct_wired) simp
    moreover have "set (Channel.Pins ch) =
          {NodePin kn p |kn n p. (kn, n) \<in> set (Nodes g) \<and> (p, k) \<in> set (Connections n)}"
      unfolding ch Pins_wired using named by fastforce
    ultimately show ?thesis using len by simp
  qed
  with g' show ?thesis by blast
qed

theorem RefreshChannelsPins_prunes_witness:
  "names_cached (ex_graph
      [(''X'', ex_node ''X'' [] [(''out'', ''c1''), (''aux'', ''c2'')]),
       (''Y'', ex_node ''Y'' [] [(''in'', ''c1'')])]
      [(''c1'', ex_chan ''c1'' []), (''c2'', ex_chan ''c2'' [])]) \<and>
   distinct (map fst (Channels (ex_graph
      [(''X'', ex_node ''X'' [] [(''out'', ''c1''), (''aux'', ''c2'')]),
       (''Y'', ex_node ''Y'' [] [(''in'', ''c1'')])]
      [(''c1'', ex_chan ''c1'' []), (''c2'', ex_chan ''c2'' [])]))) \<and>
   RefreshChannelsPins (ex_graph
      [(''X'', ex_node ''X'' [] [(''out'', ''c1''), (''aux'', ''c2'')]),
       (''Y'', ex_node ''Y'' [] [(''in'', ''c1'')])]
      [(''c1'', ex_chan ''c1'' []), (''c2'', ex_chan ''c2'' [])])
   = Inr (ex_graph
      [(''X'', ex_node ''X'' [] [(''out'', ''c1''), (''aux'', ''nil'')]),
       (''Y'', ex_node ''Y'' [] [(''in'', ''c1'')])]
      [(''c1'', ex_chan ''c1'' [NodePin ''Y'' ''in'', NodePin ''X'' ''out''])])"
  using RefreshChannelsPins_prunes[of "ex_graph
      [(''X'', ex_node ''X'' [] [(''out'', ''c1''), (''aux'', ''c2'')]),
       (''Y'', ex_node ''Y'' [] [(''in'', ''c1'')])]
      [(''c1'', ex_chan ''c1'' []), (''c2'', ex_chan ''c2'' [])]"]
  by (simp add: ex_graph_def ex_node_def ex_chan_def names_cached_def RefreshChannelsPins_def
      rebuilt_caches_def reset_caches_def AddPin_def DeleteChannel_def)

text \<open>
  Claim C10. \<open>DeleteNode\<close> skips a connection entry that names a channel absent from
  the registry exactly as it skips the \<open>"nil"\<close> sentinel: replacing every such name by
  \<open>"nil"\<close> does not change what \<open>DeleteNode\<close> returns. When all entries are the
  sentinel or dangling, it returns the graph with just the node removed; and whenever it
  returns, the node's name is gone from the registry.
\<close>

theorem DeleteNode_tolerates_dangling:
  "DeleteNode g n cc =
     DeleteNode g
       (n\<lparr>Connections :=
            map (\<lambda>(p, cn). (p, if map_of (Channels g) cn = None then ''nil'' else cn))
              (Connections n)\<rparr>) cc \<and>
   (list_all (\<lambda>(p, cn). cn = ''nil'' \<or> map_of (Channels g) cn = None) (Connections n) \<longrightarrow>
      DeleteNode g n cc = Inr (g\<lparr>Nodes := AList.delete (Node.Name n) (Nodes g)\<rparr>)) \<and>
   (\<forall>g'. DeleteNode g n cc = Inr g' \<longrightarrow> map_of (Nodes g') (Node.Name n) = None)"
proof (intro conjI impI allI)
  show "DeleteNode g n cc =
     DeleteNode g
       (n\<lparr>Connections :=
            map (\<lambda>(p, cn). (p, if map_of (Channels g) cn = None then ''nil'' else cn))
              (Connections n)\<rparr>) cc"
    using remove_node_pins_skip[of "Node.Name n" cc "Connections n" "Channels g" "[]"]
    by (simp add: DeleteNode_def)
next
  assume "list_all (\<lambda>(p, cn). cn = ''nil'' \<or> map_of (Channels g) cn = None) (Connections n)"
  from remove_node_pins_idle[OF this]
  show "DeleteNode g n cc = Inr (g\<lparr>Nodes := AList.delete (Node.Name n) (Nodes g)\<rparr>)"
    by (simp add: DeleteNode_def List.map_filter_simps)
next
  fix g' assume "DeleteNode g n cc = Inr g'"
  then have "map fst (Nodes g') = map fst (AList.delete (Node.Name n) (Nodes g))"
    unfolding DeleteNode_unfold by (auto dest!: DeleteChannels_Inr_keys)
  then have "Node.Name n \<notin> set (map fst (Nodes g'))"
    by (simp add: delete_keys)
  then show "map_of (Nodes g') (Node.Name n) = None"
    by (simp add: map_of_eq_None_iff)
qed

theorem DeleteNode_tolerates_dangling_witness:
  "list_all (\<lambda>(p, cn). cn = ''nil'' \<or>
       map_of (Channels (ex_graph
         [(''X'', ex_node ''X'' [] [(''out'', ''ghost''), (''aux'', ''nil'')]),
          (''Y'', ex_node ''Y'' [] [(''in'', ''c''), (''in2'', ''c'')])]
         [(''c'', ex_chan ''c'' [NodePin ''Y'' ''in2'', NodePin ''Y'' ''in''])])) cn = None)
     (Connections (ex_node ''X'' [] [(''out'', ''ghost''), (''aux'', ''nil'')])) \<and>
   DeleteNode (ex_graph
         [(''X'', ex_node ''X'' [] [(''out'', ''ghost''), (''aux'', ''nil'')]),
          (''Y'', ex_node ''Y'' [] [(''in'', ''c''), (''in2'', ''c'')])]
         [(''c'', ex_chan ''c'' [NodePin ''Y'' ''in2'', NodePin ''Y'' ''in''])])
     (ex_node ''X'' [] [(''out'', ''ghost''), (''aux'', ''nil'')]) True
   = Inr (ex_graph
         [(''Y'', ex_node ''Y'' [] [(''in'', ''c''), (''in2'', ''c'')])]
         [(''c'', ex_chan ''c'' [NodePin ''Y'' ''in2'', NodePin ''Y'' ''in''])])"
  using DeleteNode_tolerates_dangling[of
      "ex_graph
         [(''X'', ex_node ''X'' [] [(''out'', ''ghost''), (''aux'', ''nil'')]),
          (''Y'', ex_node ''Y'' [] [(''in'', ''c''), (''in2'', ''c'')])]
         [(''c'', ex_chan ''c'' [NodePin ''Y'' ''in2'', NodePin ''Y'' ''in''])]"
      "ex_node ''X'' [] [(''out'', ''ghost''), (''aux'', ''nil'')]" True]
  by (simp add: ex_graph_def ex_node_def ex_chan_def DeleteNode_def List.map_filter_simps)

text \<open>
  Claim C4. As stated, for every graph, the claim fails. \<open>DeleteNode\<close> skips every
  connection entry that reads \<open>"nil"\<close> before it looks the channel up, while
  \<open>RefreshChannelsPins\<close> has put the pins with such an entry into the cache of a
  channel named \<open>"nil"\<close>, if there is one. Deleting \<open>B\<close> with pruning from the
  refreshed graph leaves the channel \<open>"nil"\<close> in the registry, still caching the pin
  \<open>B.q\<close> of the deleted node and with one pin of a living node. The graph has its names
  cached, its keys unique and every cached pin backed by a connection entry.

  \<open>DeleteNode\<close> removes the pins that the node's connection entries name, so it also
  leaves a cached pin of the node behind when the cache is stale: in \<open>stale_example\<close>,
  where no channel is named \<open>"nil"\<close>, the channel \<open>c\<close> keeps \<open>A.p\<close>.
\<close>

theorem sentinel_channel_keeps_deleted_node:
  "names_cached nil_refreshed \<and> keys_distinct nil_refreshed \<and> pins_backed nil_refreshed \<and>
   RefreshChannelsPins nil_example = Inr nil_refreshed \<and>
   map_of (Nodes nil_refreshed) ''B'' = Some (ex_node ''B'' [] [(''q'', ''nil'')]) \<and>
   DeleteNode nil_refreshed (ex_node ''B'' [] [(''q'', ''nil'')]) True =
     Inr (ex_graph
      [(''A'', ex_node ''A'' [] [(''p'', ''nil'')]),
       (''C'', ex_node ''C'' [] [(''r'', ''nil'')])]
      [(''nil'', ex_chan ''nil'' [NodePin ''C'' ''r'', NodePin ''B'' ''q''])]) \<and>
   names_cached stale_example \<and> keys_distinct stale_example \<and> sentinel_free stale_example \<and>
   \<not> pins_backed stale_example \<and>
   map_of (Nodes stale_example) ''A'' = Some (ex_node ''A'' [] [(''p'', ''nil'')]) \<and>
   DeleteNode stale_example (ex_node ''A'' [] [(''p'', ''nil'')]) True =
     Inr (ex_graph
      [(''B'', ex_node ''B'' [] [(''q'', ''c'')]),
       (''C'', ex_node ''C'' [] [(''r'', ''c'')])]
      [(''c'', ex_chan ''c'' [NodePin ''A'' ''p'', NodePin ''B'' ''q'', NodePin ''C'' ''r''])])"
  by code_simp

text \<open>
  Claim C4, amended. Take a graph in which \<open>"nil"\<close> is not a channel name, whose objects
  cache their registry keys and in which every cached pin is backed by the connection
  entry of a node of the registry (what \<open>RefreshChannelsPins\<close> leaves), and a node
  \<open>n\<close> of the registry. Without pruning, \<open>DeleteNode\<close> returns
  the graph \<open>g0\<close>: \<open>n\<close> removed, every channel still present, its cache without
  \<open>n\<close>'s pins. With pruning it runs \<open>DeleteChannel\<close> on channel objects read from
  \<open>g0\<close>, that is, after all of \<open>n\<close>'s removals; it returns a graph \<open>g1\<close> in which
  no channel references \<open>n\<close>, every channel that held a pin of \<open>n\<close> and is left with
  fewer than two pins is gone, and every channel left with two or more pins stays.
\<close>

theorem DeleteNode_safety:
  assumes nc: "names_cached g" and sf: "sentinel_free g" and pb: "pins_backed g"
    and reg: "map_of (Nodes g) (Node.Name n) = Some n"
  shows "\<exists>g0 g1 chs.
     DeleteNode g n False = Inr g0 \<and>
     Nodes g0 = AList.delete (Node.Name n) (Nodes g) \<and>
     map fst (Channels g0) = map fst (Channels g) \<and>
     (\<forall>k. map_of (Channels g0) k =
        map_option (\<lambda>ch. ch\<lparr>Channel.Pins := filter (\<lambda>np. Node np \<noteq> Node.Name n) (Channel.Pins ch)\<rparr>)
          (map_of (Channels g) k)) \<and>
     set chs \<subseteq> snd ` set (Channels g0) \<and>
     DeleteNode g n True = DeleteChannels chs g0 \<and>
     DeleteNode g n True = Inr g1 \<and>
     map_of (Nodes g1) (Node.Name n) = None \<and>
     (\<forall>k ch. map_of (Channels g1) k = Some ch \<longrightarrow>
        map_of (Channels g0) k = Some ch \<and> (\<forall>np \<in> set (Channel.Pins ch). Node np \<noteq> Node.Name n)) \<and>
     (\<forall>k ch. map_of (Channels g) k = Some ch \<longrightarrow>
        (\<exists>np \<in> set (Channel.Pins ch). Node np = Node.Name n) \<longrightarrow>
        length (filter (\<lambda>np. Node np \<noteq> Node.Name n) (Channel.Pins ch)) < 2 \<longrightarrow>
        map_of (Channels g1) k = None) \<and>
     (\<forall>k ch. map_of (Channels g0) k = Some ch \<longrightarrow> 2 \<le> length (Channel.Pins ch) \<longrightarrow>
        map_of (Channels g1) k = Some ch)"
proof -
  let ?nm = "Node.Name n"
  let ?conns = "Connections n"
  let ?cs = "Channels g"
  let ?csF = "fst (remove_node_pins ?nm False ?conns ?cs [])"
  let ?rem = "snd (remove_node_pins ?nm True ?conns ?cs [])"
  let ?g0 = "g\<lparr>Channels := ?csF, Nodes := AList.delete ?nm (Nodes g)\<rparr>"
  let ?chs = "List.map_filter (map_of ?csF) ?rem"
  let ?cut = "\<lambda>ch. ch\<lparr>Channel.Pins := filter (\<lambda>np. Node np \<noteq> ?nm) (Channel.Pins ch)\<rparr>"
  have keys: "map fst ?csF = map fst ?cs"
    using remove_node_pins_lookup[of ?nm False ?conns ?cs "[]"] by simp
  have look0: "map_of ?csF k = map_option (without_pins k ?nm ?conns) (map_of ?cs k)" for k
    using remove_node_pins_lookup[of ?nm False ?conns ?cs "[]"] by simp
  have look: "map_of ?csF k = map_option ?cut (map_of ?cs k)" for k
  proof (cases "map_of ?cs k")
    case None
    then show ?thesis by (simp add: look0)
  next
    case (Some ch)
    from without_pins_backed[OF pb sf reg Some] Some show ?thesis by (simp add: look0)
  qed
  have unm: "snd (remove_node_pins ?nm False ?conns ?cs []) = []"
    by (rule remove_node_pins_unmarked)
  have F: "DeleteNode g n False = Inr ?g0"
    unfolding DeleteNode_unfold unm by (simp add: List.map_filter_simps)
  have T: "DeleteNode g n True = DeleteChannels ?chs ?g0"
    by (rule DeleteNode_unfold)
  have marks: "set ?rem = {cn \<in> touched ?conns ?cs. \<exists>ch. map_of ?cs cn = Some ch \<and>
                    length (Channel.Pins (?cut ch)) < 2}"
  proof -
    have "set ?rem = {cn \<in> touched ?conns ?cs. \<exists>ch. map_of ?cs cn = Some ch \<and>
                    length (Channel.Pins (without_pins cn ?nm ?conns ch)) < 2}"
      using remove_node_pins_marks[of ?nm ?conns ?cs "[]"] by simp
    also have "\<dots> = {cn \<in> touched ?conns ?cs. \<exists>ch. map_of ?cs cn = Some ch \<and>
                    length (Channel.Pins (?cut ch)) < 2}"
      using without_pins_backed[OF pb sf reg] by (intro Collect_cong) (auto simp del: without_pins_def)
    finally show ?thesis .
  qed
  have chs_set: "set ?chs = {c. \<exists>k \<in> set ?rem. map_of ?csF k = Some c}"
    by (rule set_map_filter_map_of)
  have sub: "set ?chs \<subseteq> snd ` set (Channels ?g0)"
    unfolding chs_set by (auto dest!: map_of_SomeD intro: rev_image_eqI)
  have chan_named: "Channel.Name ch = k" if "map_of ?cs k = Some ch" for k ch
    using nc map_of_SomeD[OF that] by (auto simp: names_cached_def list_all_iff)
  have names: "Channel.Name ` set ?chs = set ?rem"
  proof (intro set_eqI iffI)
    fix x assume "x \<in> Channel.Name ` set ?chs"
    then obtain c k where "k \<in> set ?rem" "map_of ?csF k = Some c" "x = Channel.Name c"
      unfolding chs_set by auto
    then show "x \<in> set ?rem"
      using chan_named by (auto simp: look)
  next
    fix x assume x: "x \<in> set ?rem"
    then obtain ch where ch: "map_of ?cs x = Some ch" unfolding marks by auto
    then have "map_of ?csF x = Some (?cut ch)" by (simp add: look)
    with x have "?cut ch \<in> set ?chs" unfolding chs_set by blast
    moreover have "Channel.Name (?cut ch) = x" using chan_named[OF ch] by simp
    ultimately show "x \<in> Channel.Name ` set ?chs" by (metis imageI)
  qed
  have alive: "\<forall>c \<in> set ?chs. \<forall>np \<in> set (Channel.Pins c). map_of (Nodes ?g0) (Node np) \<noteq> None"
  proof (intro ballI)
    fix c np assume c: "c \<in> set ?chs" and np: "np \<in> set (Channel.Pins c)"
    from c obtain k ch where ch: "map_of ?cs k = Some ch" and cc: "c = ?cut ch"
      unfolding chs_set by (auto simp: look)
    from np cc have m: "np \<in> set (Channel.Pins ch)" and ne: "Node np \<noteq> ?nm" by auto
    from pins_backedD[OF pb ch m] have "map_of (Nodes g) (Node np) \<noteq> None" by auto
    with ne show "map_of (Nodes ?g0) (Node np) \<noteq> None" by (simp add: delete_conv')
  qed
  from DeleteChannels_ok[OF alive] obtain g1 where
    g1: "DeleteChannels ?chs ?g0 = Inr g1"
      "Channels g1 = filter (\<lambda>(k, c). k \<notin> Channel.Name ` set ?chs) (Channels ?g0)"
      "map fst (Nodes g1) = map fst (Nodes ?g0)"
    by blast
  have look1: "map_of (Channels g1) k = (if k \<notin> set ?rem then map_of ?csF k else None)" for k
    unfolding g1(2) names by (simp add: map_of_filter_keys)
  have gone: "map_of (Nodes g1) ?nm = None"
  proof -
    have "?nm \<notin> set (map fst (Nodes g1))" unfolding g1(3) by (simp add: delete_keys)
    then show ?thesis by (simp add: map_of_eq_None_iff)
  qed
  have c2: "\<forall>k ch. map_of (Channels g1) k = Some ch \<longrightarrow>
        map_of (Channels ?g0) k = Some ch \<and> (\<forall>np \<in> set (Channel.Pins ch). Node np \<noteq> ?nm)"
    by (auto simp: look1 look split: if_splits)
  have c3: "\<forall>k ch. map_of ?cs k = Some ch \<longrightarrow>
        (\<exists>np \<in> set (Channel.Pins ch). Node np = ?nm) \<longrightarrow>
        length (filter (\<lambda>np. Node np \<noteq> ?nm) (Channel.Pins ch)) < 2 \<longrightarrow>
        map_of (Channels g1) k = None"
  proof (intro allI impI)
    fix k ch assume ch: "map_of ?cs k = Some ch"
      and ex: "\<exists>np \<in> set (Channel.Pins ch). Node np = ?nm"
      and len: "length (filter (\<lambda>np. Node np \<noteq> ?nm) (Channel.Pins ch)) < 2"
    from ex obtain np where np: "np \<in> set (Channel.Pins ch)" "Node np = ?nm" by blast
    from pins_backedD[OF pb ch np(1)] np(2) reg
    have "map_of ?conns (Pin np) = Some k" by auto
    then have "(Pin np, k) \<in> set ?conns" by (rule map_of_SomeD)
    then have "k \<in> snd ` set ?conns" by force
    moreover have "k \<noteq> ''nil''" using sf ch by (auto simp: sentinel_free_def)
    ultimately have "k \<in> touched ?conns ?cs" using ch by (simp add: touched_def)
    with ch len have "k \<in> set ?rem" unfolding marks by simp
    then show "map_of (Channels g1) k = None" by (simp add: look1)
  qed
  have c4: "\<forall>k ch. map_of (Channels ?g0) k = Some ch \<longrightarrow> 2 \<le> length (Channel.Pins ch) \<longrightarrow>
        map_of (Channels g1) k = Some ch"
  proof (intro allI impI)
    fix k ch assume ch: "map_of (Channels ?g0) k = Some ch" and len: "2 \<le> length (Channel.Pins ch)"
    have "k \<notin> set ?rem"
    proof
      assume "k \<in> set ?rem"
      then obtain c0 where "map_of ?cs k = Some c0" "length (Channel.Pins (?cut c0)) < 2"
        unfolding marks by auto
      with ch len show False by (simp add: look)
    qed
    with ch show "map_of (Channels g1) k = Some ch" by (simp add: look1)
  qed
  have "DeleteNode g n False = Inr ?g0 \<and>
     Nodes ?g0 = AList.delete ?nm (Nodes g) \<and>
     map fst (Channels ?g0) = map fst ?cs \<and>
     (\<forall>k. map_of (Channels ?g0) k = map_option ?cut (map_of ?cs k)) \<and>
     set ?chs \<subseteq> snd ` set (Channels ?g0) \<and>
     DeleteNode g n True = DeleteChannels ?chs ?g0 \<and>
     DeleteNode g n True = Inr g1 \<and>
     map_of (Nodes g1) ?nm = None"
    using F keys look sub T g1(1) gone by simp
  with c2 c3 c4 show ?thesis by blast
qed

theorem DeleteNode_safety_witness:
  "names_cached deletion_example \<and> sentinel_free deletion_example \<and>
   pins_backed deletion_example \<and>
   map_of (Nodes deletion_example) (Node.Name deletion_example_node) = Some deletion_example_node \<and>
   DeleteNode deletion_example deletion_example_node False =
     Inr (ex_graph
       [(''Y'', ex_node ''Y'' [] [(''in'', ''c1''), (''i2'', ''c2'')]),
        (''Z'', ex_node ''Z'' [] [(''z'', ''c2'')])]
       [(''c1'', ex_chan ''c1'' [NodePin ''Y'' ''in'']),
        (''c2'', ex_chan ''c2'' [NodePin ''Y'' ''i2'', NodePin ''Z'' ''z'']),
        (''c3'', ex_chan ''c3'' [])]) \<and>
   DeleteNode deletion_example deletion_example_node True =
     Inr (ex_graph
       [(''Y'', ex_node ''Y'' [] [(''in'', ''nil''), (''i2'', ''c2'')]),
        (''Z'', ex_node ''Z'' [] [(''z'', ''c2'')])]
       [(''c2'', ex_chan ''c2'' [NodePin ''Y'' ''i2'', NodePin ''Z'' ''z''])])"
  using DeleteNode_safety[of deletion_example deletion_example_node]
  by (simp add: deletion_example_def deletion_example_node_def ex_graph_def ex_node_def ex_chan_def
      names_cached_def sentinel_free_def pins_backed_def DeleteNode_def DeleteChannel_def
      RemovePin_def List.map_filter_simps)

text \<open>
  Claim C7. As stated, for every graph, the claim fails. \<open>RefreshChannelsPins\<close> looks
  every connection entry up in the channel registry and has no test for the sentinel. In
  a graph with a channel named \<open>"nil"\<close> the first call prunes \<open>c\<close> and writes \<open>"nil"\<close>
  into the entry of \<open>A.p\<close>; the second call then finds that entry naming the channel
  \<open>"nil"\<close> and adds \<open>A.p\<close> to its cache: it does not return the graph it was given.
  The graph has its names cached and its keys unique.
\<close>

theorem second_refresh_differs:
  "names_cached nil_example \<and> keys_distinct nil_example \<and>
   RefreshChannelsPins nil_example = Inr nil_refreshed \<and>
   RefreshChannelsPins nil_refreshed =
     Inr (ex_graph
      [(''A'', ex_node ''A'' [] [(''p'', ''nil'')]),
       (''B'', ex_node ''B'' [] [(''q'', ''nil'')]),
       (''C'', ex_node ''C'' [] [(''r'', ''nil'')])]
      [(''nil'', ex_chan ''nil'' [NodePin ''C'' ''r'', NodePin ''B'' ''q'', NodePin ''A'' ''p''])]) \<and>
   RefreshChannelsPins nil_refreshed \<noteq> Inr nil_refreshed"
  by code_simp

text \<open>
  Claim C7, amended. On a graph in which no channel is named \<open>"nil"\<close> (names cached
  and keys unique, as in every graph \<open>LoadJSON\<close> builds: \<open>wf_graph\<close>),
  \<open>RefreshChannelsPins\<close> returns, and a second call right after the first returns the
  graph the first returned: the same registry, the same pin caches and the same
  connection maps.
\<close>

theorem RefreshChannelsPins_idempotent:
  assumes "wf_graph g"
  shows "\<exists>g'. RefreshChannelsPins g = Inr g' \<and> RefreshChannelsPins g' = Inr g'"
proof -
  from assms have nc: "names_cached g" and dc: "distinct (map fst (Channels g))"
    by (auto simp: wf_graph_def keys_distinct_def)
  from RefreshChannelsPins_result[OF nc dc] obtain g' where
    r: "RefreshChannelsPins g = Inr g'"
    and cs: "Channels g' = filter (\<lambda>(k, ch). 2 \<le> length (Channel.Pins ch)) (rebuilt_caches g)"
    by blast
  from cs have "\<forall>(k, ch) \<in> set (Channels g'). 2 \<le> length (Channel.Pins ch)" by auto
  from prune_channels_none[OF this] have "RefreshChannelsPins g' = Inr g'"
    by (simp add: RefreshChannelsPins_def RefreshChannelsPins_stable[OF assms r])
  with r show ?thesis by blast
qed

theorem RefreshChannelsPins_idempotent_witness:
  "wf_graph refresh_example \<and>
   RefreshChannelsPins refresh_example = Inr refreshed_example \<and>
   RefreshChannelsPins refreshed_example = Inr refreshed_example"
proof -
  have wf: "wf_graph refresh_example"
    by (simp add: refresh_example_def ex_graph_def ex_node_def ex_chan_def wf_graph_def
        names_cached_def keys_distinct_def sentinel_free_def)
  have r: "RefreshChannelsPins refresh_example = Inr refreshed_example"
    by (simp add: refresh_example_def refreshed_example_def ex_graph_def ex_node_def ex_chan_def
        RefreshChannelsPins_def rebuilt_caches_def reset_caches_def AddPin_def DeleteChannel_def)
  from RefreshChannelsPins_idempotent[OF wf] wf r show ?thesis by auto
qed

text \<open>
  Claim C1. The claim says that two pins of incompatible concrete types on one channel
  make \<open>InferTypes\<close> return a type-incompatibility error. The code does not: whatever
  the source package is, \<open>inferChannelType\<close> never returns the error "channel
  connected to incompatible types", because the error of \<open>Infer\<close> is dropped. On
  scenario B of the spec (an \<open>int\<close> output wired to a \<open>string\<close> input) unification
  reports the conflict and \<open>InferTypes\<close> nevertheless returns without error, the
  channel typed by its first pin (\<open>string\<close>) and the other pin still \<open>int\<close>.
\<close>

theorem InferTypes_conflict_not_reported:
  "(\<forall>ops g ck src.
      inferChannelType ops g ck \<noteq>
        Inl (TypeIncompatibilityError ''channel connected to incompatible types'' src)) \<and>
   Infer spec_ops [] (Named ''int'') (Named ''string'') =
     ([], Some ''cannot unify int with string'') \<and>
   InferTypes spec_ops 3 scenario_B =
     Some (Inr (scenario_B
       \<lparr>Nodes :=
          [(''X'', (tnode ''X'' [(''out'', ''int'')] [(''out'', ''c'')])
                     \<lparr>pinTypes := [(''out'', Named ''int'')]\<rparr>),
           (''Y'', (tnode ''Y'' [(''in'', ''string'')] [(''in'', ''c'')])
                     \<lparr>pinTypes := [(''in'', Named ''string'')]\<rparr>)],
        Channels :=
          [(''c'', (ex_chan ''c'' [NodePin ''Y'' ''in'', NodePin ''X'' ''out''])
                     \<lparr>Channel.Type := Some (NodePin ''Y'' ''in'')\<rparr>)]\<rparr>))"
proof (intro conjI allI)
  fix ops :: "'a source_ops" and g ck src
  show "inferChannelType ops g ck \<noteq>
        Inl (TypeIncompatibilityError ''channel connected to incompatible types'' src)"
    by (simp add: inferChannelType_def infer_pins_never_incompatible split: option.split)
next
  show "Infer spec_ops [] (Named ''int'') (Named ''string'') =
     ([], Some ''cannot unify int with string'')"
    by (simp add: spec_ops_def)
next
  show "InferTypes spec_ops 3 scenario_B =
     Some (Inr (scenario_B
       \<lparr>Nodes :=
          [(''X'', (tnode ''X'' [(''out'', ''int'')] [(''out'', ''c'')])
                     \<lparr>pinTypes := [(''out'', Named ''int'')]\<rparr>),
           (''Y'', (tnode ''Y'' [(''in'', ''string'')] [(''in'', ''c'')])
                     \<lparr>pinTypes := [(''in'', Named ''string'')]\<rparr>)],
        Channels :=
          [(''c'', (ex_chan ''c'' [NodePin ''Y'' ''in'', NodePin ''X'' ''out''])
                     \<lparr>Channel.Type := Some (NodePin ''Y'' ''in'')\<rparr>)]\<rparr>))"
    by code_simp
qed

text \<open>
  Claim C5. \<open>InferTypes\<close> returns the same as on the graph with all type state cleared
  (no pin types, no bindings, no channel types, an empty inference map); hence two
  graphs that differ in their type state only give the same result.
\<close>

theorem InferTypes_ignores_prior_types:
  "InferTypes ops fuel g = InferTypes ops fuel (clear_types g) \<and>
   (clear_types g = clear_types g2 \<longrightarrow> InferTypes ops fuel g = InferTypes ops fuel g2)"
  by (metis InferTypes_clear_types)

theorem InferTypes_ignores_prior_types_witness:
  "clear_types scenario_A_stale = clear_types scenario_A \<and>
   scenario_A_stale \<noteq> scenario_A \<and>
   InferTypes spec_ops 3 scenario_A = Some (Inr scenario_A_inferred) \<and>
   InferTypes spec_ops 3 scenario_A_stale = Some (Inr scenario_A_inferred)"
proof -
  have c: "clear_types scenario_A_stale = clear_types scenario_A"
    by (simp add: clear_types_def scenario_A_stale_def scenario_A_def tgraph_def tnode_def ex_chan_def)
  have d: "scenario_A_stale \<noteq> scenario_A"
    by (simp add: scenario_A_stale_def scenario_A_def tgraph_def tnode_def ex_chan_def)
  have r: "InferTypes spec_ops 3 scenario_A = Some (Inr scenario_A_inferred)"
    by code_simp
  from InferTypes_ignores_prior_types[of spec_ops 3 scenario_A_stale scenario_A] c
  have "InferTypes spec_ops 3 scenario_A_stale = InferTypes spec_ops 3 scenario_A" by blast
  with c d r show ?thesis by metis
qed



text \<open>
  Claim C6. As stated, for every graph, the claim fails, in two ways. The type of an
  unconnected pin is not left as it was: in scenario C of the spec the broadcaster's
  outputs \<open>output1\<close>, \<open>output2\<close> and \<open>output3\<close> are unconnected and instantiated as
  the parameter \<open>T\<close>, and after the pass their type is \<open>int\<close>. And in a graph with a
  channel named \<open>"nil"\<close> the unconnected pins are in the cache of that channel and
  are unified with each other: the unconnected \<open>int\<close> output of \<open>X\<close> binds the
  parameter of the unconnected input of \<open>Y\<close>.
\<close>

theorem unconnected_pin_type_changes:
  "unconnected (NodePin ''B'' ''output1'') scenario_C \<and>
   unconnected (NodePin ''B'' ''output2'') scenario_C \<and>
   unconnected (NodePin ''B'' ''output3'') scenario_C \<and>
   map_of (Nodes scenario_C) ''B'' = Some (broadcaster\<lparr>pinTypes := []\<rparr>) \<and>
   instantiate_pins spec_ops ''B'' (PartPins broadcaster) = Inr (pinTypes broadcaster) \<and>
   type_at [(''B'', broadcaster)] (NodePin ''B'' ''output1'') = Some (Param (TypeParam ''B'' ''T'')) \<and>
   InferTypes spec_ops 5 scenario_C = Some (Inr scenario_C_inferred) \<and>
   type_at (Nodes scenario_C_inferred) (NodePin ''B'' ''output1'') = Some (Named ''int'') \<and>
   type_at (Nodes scenario_C_inferred) (NodePin ''B'' ''output2'') = Some (Named ''int'') \<and>
   type_at (Nodes scenario_C_inferred) (NodePin ''B'' ''output3'') = Some (Named ''int'') \<and>
   names_cached nil_typed \<and> keys_distinct nil_typed \<and>
   RefreshChannelsPins nil_typed = Inr nil_typed_refreshed \<and>
   unconnected (NodePin ''X'' ''out'') nil_typed_refreshed \<and>
   unconnected (NodePin ''Y'' ''in'') nil_typed_refreshed \<and>
   map_option Channel.Pins (map_of (Channels nil_typed_refreshed) ''nil'') =
     Some [NodePin ''Y'' ''in'', NodePin ''X'' ''out''] \<and>
   InferTypes spec_ops 5 nil_typed_refreshed = Some (Inr nil_typed_inferred) \<and>
   type_at (Nodes nil_typed_inferred) (NodePin ''Y'' ''in'') = Some (Named ''int'') \<and>
   map_option typeParams (map_of (Nodes nil_typed_inferred) ''Y'') = Some [(''T'', ''int'')]"
  by code_simp

text \<open>
  Claim C6, amended. On a graph in which no channel is named \<open>"nil"\<close> (and names are
  cached and keys unique: \<open>wf_graph\<close>), after \<open>RefreshChannelsPins\<close> every pin in a
  channel's cache has a connection entry that names this channel, so an unconnected pin
  is in no cache. An unconnected pin that is in no cache does not constrain the
  inference: a pass that succeeds gives, apart from the type of that pin itself, the
  result of the pass on the graph in which the part does not declare the pin at all:
  the same channel types, the same inference map, the same types of all other pins and
  the same published bindings. The type of the pin itself is not left alone:
  \<open>applyTypeParams\<close> refines every pin type of the node, connected or not, though it
  never returns the sentinel or the empty name, and after a successful pass every pin
  type is a result of \<open>Lithify\<close>.
\<close>

theorem unconnected_pins_not_unified:
  "(wf_graph h \<and> RefreshChannelsPins h = Inr h' \<longrightarrow>
      (\<forall>(k, c) \<in> set (Channels h'). \<forall>np \<in> set (Channel.Pins c).
          k \<noteq> ''nil'' \<and>
          (\<exists>n. map_of (Nodes h') (Node np) = Some n \<and> map_of (Connections n) (Pin np) = Some k)) \<and>
      (\<forall>x. unconnected x h' \<longrightarrow> uncached x h')) \<and>
   (unconnected x g \<and> uncached x g \<and> InferTypes ops fuel g = Some (Inr r) \<longrightarrow>
      InferTypes ops fuel (without_pin x g) = Some (Inr (without_pin x r))) \<and>
   (InferTypes ops fuel g = Some (Inr r) \<and> type_at (Nodes r) y = Some t \<longrightarrow>
      (\<exists>t0. t = Lithify ops t0 (typeEmptyInterface ops))) \<and>
   (applyTypeParams ops n m = Inr (n', nx) \<longrightarrow>
      ''nil'' \<notin> set nx \<and> [] \<notin> set nx \<and> set nx \<subseteq> snd ` set (Connections n) \<and>
      map fst (pinTypes n') = map fst (pinTypes n) \<and>
      (\<forall>(pn, t) \<in> set (pinTypes n).
          \<exists>t' b. Refine ops t m = Inr (t', b) \<and> (pn, t') \<in> set (pinTypes n')))"
proof (intro conjI impI)
  assume a: "wf_graph h \<and> RefreshChannelsPins h = Inr h'"
  then have pb: "pins_backed h'" and sf: "sentinel_free h'"
    using RefreshChannelsPins_backed[of h h'] by auto
  show "\<forall>(k, c) \<in> set (Channels h'). \<forall>np \<in> set (Channel.Pins c).
          k \<noteq> ''nil'' \<and>
          (\<exists>n. map_of (Nodes h') (Node np) = Some n \<and> map_of (Connections n) (Pin np) = Some k)"
  proof -
    have "k \<noteq> ''nil'' \<and>
          (\<exists>n. map_of (Nodes h') (Node np) = Some n \<and> map_of (Connections n) (Pin np) = Some k)"
      if m: "(k, c) \<in> set (Channels h')" and np: "np \<in> set (Channel.Pins c)" for k c np
    proof
      from m have "k \<in> fst ` set (Channels h')" by force
      moreover have "''nil'' \<notin> fst ` set (Channels h')"
        using sf by (simp add: sentinel_free_def map_of_eq_None_iff)
      ultimately show "k \<noteq> ''nil''" by blast
      from pb m np show "\<exists>n. map_of (Nodes h') (Node np) = Some n \<and> map_of (Connections n) (Pin np) = Some k"
        by (fastforce simp: pins_backed_def list_all_iff split: option.splits)
    qed
    then show ?thesis by blast
  qed
  show "\<forall>x. unconnected x h' \<longrightarrow> uncached x h'"
    using unconnected_uncached[OF pb _ sf] by blast
next
  assume "unconnected x g \<and> uncached x g \<and> InferTypes ops fuel g = Some (Inr r)"
  then have un: "unconnected x g" and uc: "uncached x g"
    and ok: "InferTypes ops fuel g = Some (Inr r)"
    by simp_all
  show "InferTypes ops fuel (without_pin x g) = Some (Inr (without_pin x r))"
    by (rule InferTypes_hide[OF un uc ok])
next
  assume "InferTypes ops fuel g = Some (Inr r) \<and> type_at (Nodes r) y = Some t"
  then have ok: "InferTypes ops fuel g = Some (Inr r)" and ty: "type_at (Nodes r) y = Some t"
    by simp_all
  show "\<exists>t0. t = Lithify ops t0 (typeEmptyInterface ops)"
    by (rule InferTypes_lithified[OF ok ty])
next
  assume "applyTypeParams ops n m = Inr (n', nx)"
  then obtain pts where r: "refine_pins ops m (Connections n) (pinTypes n) [] = Inr (pts, nx)"
    and n': "n' = n\<lparr>pinTypes := pts\<rparr>"
    by (auto simp: applyTypeParams_def split: sum.splits)
  from refine_pins_next[OF r] n'
  have all: "''nil'' \<notin> set nx \<and> [] \<notin> set nx \<and> set nx \<subseteq> snd ` set (Connections n) \<and>
      map fst (pinTypes n') = map fst (pinTypes n) \<and>
      (\<forall>(pn, t) \<in> set (pinTypes n).
          \<exists>t' b. Refine ops t m = Inr (t', b) \<and> (pn, t') \<in> set (pinTypes n'))"
    by auto
  from all show "''nil'' \<notin> set nx" by blast
  from all show "[] \<notin> set nx" by blast
  from all show "set nx \<subseteq> snd ` set (Connections n)" by blast
  from all show "map fst (pinTypes n') = map fst (pinTypes n)" by blast
  from all show "\<forall>(pn, t) \<in> set (pinTypes n).
          \<exists>t' b. Refine ops t m = Inr (t', b) \<and> (pn, t') \<in> set (pinTypes n')" by blast
qed

theorem unconnected_pins_not_unified_witness:
  "wf_graph scenario_C \<and> RefreshChannelsPins scenario_C = Inr scenario_C \<and>
   unconnected (NodePin ''B'' ''output1'') scenario_C \<and>
   uncached (NodePin ''B'' ''output1'') scenario_C \<and>
   InferTypes spec_ops 5 scenario_C = Some (Inr scenario_C_inferred) \<and>
   InferTypes spec_ops 5 (without_pin (NodePin ''B'' ''output1'') scenario_C) =
     Some (Inr (without_pin (NodePin ''B'' ''output1'') scenario_C_inferred)) \<and>
   type_at (Nodes scenario_C_inferred) (NodePin ''B'' ''output1'') = Some (Named ''int'') \<and>
   (\<exists>t0. Named ''int'' = Lithify spec_ops t0 (typeEmptyInterface spec_ops)) \<and>
   applyTypeParams spec_ops broadcaster [(TypeParam ''B'' ''T'', Named ''int'')] =
     Inr (broadcaster\<lparr>pinTypes := [(''input'', Named ''int''), (''output0'', Named ''int''),
                                   (''output1'', Named ''int''), (''output2'', Named ''int''),
                                   (''output3'', Named ''int'')]\<rparr>,
          [''c2'', ''c1''])"
proof -
  have wf: "wf_graph scenario_C" by code_simp
  have rf: "RefreshChannelsPins scenario_C = Inr scenario_C" by code_simp
  have un: "unconnected (NodePin ''B'' ''output1'') scenario_C" by code_simp
  have r: "InferTypes spec_ops 5 scenario_C = Some (Inr scenario_C_inferred)" by code_simp
  have t: "type_at (Nodes scenario_C_inferred) (NodePin ''B'' ''output1'') = Some (Named ''int'')"
    by code_simp
  have a: "applyTypeParams spec_ops broadcaster [(TypeParam ''B'' ''T'', Named ''int'')] =
     Inr (broadcaster\<lparr>pinTypes := [(''input'', Named ''int''), (''output0'', Named ''int''),
                                   (''output1'', Named ''int''), (''output2'', Named ''int''),
                                   (''output3'', Named ''int'')]\<rparr>,
          [''c2'', ''c1''])"
    by code_simp
  from unconnected_pins_not_unified[of scenario_C scenario_C "NodePin ''B'' ''output1''" scenario_C
      spec_ops 5 scenario_C_inferred "NodePin ''B'' ''output1''" "Named ''int''" broadcaster
      "[(TypeParam ''B'' ''T'', Named ''int'')]"
      "broadcaster\<lparr>pinTypes := [(''input'', Named ''int''), (''output0'', Named ''int''),
                                   (''output1'', Named ''int''), (''output2'', Named ''int''),
                                   (''output3'', Named ''int'')]\<rparr>" "[''c2'', ''c1'']"]
    wf rf un r t a
  show ?thesis by blast
qed




end
